theory Spec2Isabelle
  imports Complex_Main "HOL-Library.Word"
begin

section \<open>Pre-authentication audio buffer (logic/audio\_buffer.py)\<close>

text \<open>
  A PCM chunk is a Python \<open>bytes\<close> object.  \<open>AudioBufferManager\<close> has the two fields
  \<open>_buffer\<close> (a list of chunks, oldest first) and \<open>_is_buffering\<close>.
\<close>

type_synonym chunk = "8 word list"

record AudioBufferManager =
  buffer :: "chunk list"
  is_buffering :: bool

definition abm_init :: AudioBufferManager where
  "abm_init = \<lparr>buffer = [], is_buffering = True\<rparr>"

definition MAX_CHUNKS :: nat where
  "MAX_CHUNKS = 20000"

text \<open>
  \<open>add\<close>: in buffering mode, \<open>self._buffer.pop(0)\<close> runs only under
  \<open>len(self._buffer) >= MAX_CHUNKS\<close>, hence on a non-empty list, where it removes the
  head; then the chunk is appended.  Outside buffering mode the body is \<open>pass\<close>.
\<close>

definition add :: "chunk \<Rightarrow> AudioBufferManager \<Rightarrow> AudioBufferManager" where
  "add c m =
     (if is_buffering m then
        (if length (buffer m) \<ge> MAX_CHUNKS
         then m\<lparr>buffer := tl (buffer m) @ [c]\<rparr>
         else m\<lparr>buffer := buffer m @ [c]\<rparr>)
      else m)"

definition clear :: "AudioBufferManager \<Rightarrow> AudioBufferManager" where
  "clear m = m\<lparr>buffer := [], is_buffering := True\<rparr>"

definition is_empty :: "AudioBufferManager \<Rightarrow> bool" where
  "is_empty m = (length (buffer m) = 0)"

definition count :: "AudioBufferManager \<Rightarrow> nat" where
  "count m = length (buffer m)"

text \<open>
  \<open>flush\<close> is a coroutine: every \<open>await send_callback(chunk)\<close> is a suspension point
  at which the callback, and whatever else runs meanwhile, sees and may change the
  manager.  The callback is therefore a function on the pair of the manager and the
  rest of the world \<open>'s\<close>; it either returns the new pair or raises (\<open>Inl\<close>), and an
  exception leaves the \<open>for\<close> loop and \<open>flush\<close>.
\<close>

type_synonym ('e, 's) send_callback =
  "chunk \<Rightarrow> AudioBufferManager \<times> 's \<Rightarrow> 'e + AudioBufferManager \<times> 's"

fun flush_loop ::
  "('e, 's) send_callback \<Rightarrow> chunk list \<Rightarrow> AudioBufferManager \<times> 's \<Rightarrow> 'e + AudioBufferManager \<times> 's"
where
  "flush_loop send [] w = Inr w"
| "flush_loop send (c # cs) w =
     (case send c w of Inl e \<Rightarrow> Inl e | Inr w' \<Rightarrow> flush_loop send cs w')"

definition flush ::
  "('e, 's) send_callback \<Rightarrow> AudioBufferManager \<times> 's \<Rightarrow> 'e + AudioBufferManager \<times> 's"
where
  "flush send w =
     (let m = fst w; s = snd w in
      if buffer m = [] then Inr (m\<lparr>is_buffering := False\<rparr>, s)
      else
        (let to_flush = buffer m;
             m' = m\<lparr>buffer := [], is_buffering := False\<rparr>
         in flush_loop send to_flush (m', s)))"

text \<open>
  A callback that returns normally and leaves the manager alone: it is given by what
  it does to the rest of the world, seeing the chunk and the manager.
\<close>

definition plain_send :: "(chunk \<Rightarrow> AudioBufferManager \<Rightarrow> 's \<Rightarrow> 's) \<Rightarrow> ('e, 's) send_callback" where
  "plain_send f c w = Inr (fst w, f c (fst w) (snd w))"

text \<open>The callback used in the examples records each call: the chunk, and the
  \<open>buffering\<close> flag and the buffer's length as they are when the send is awaited.\<close>

definition record_send :: "chunk \<Rightarrow> AudioBufferManager \<Rightarrow> (chunk \<times> bool \<times> nat) list \<Rightarrow> (chunk \<times> bool \<times> nat) list" where
  "record_send c m calls = calls @ [(c, is_buffering m, length (buffer m))]"

text \<open>
  Two callbacks of the other kinds, each recording the chunks it is given.  The first
  raises on the chunk \<open>[2]\<close>, as \<open>send_audio\<close> does when \<open>ws.send\<close> finds the connection
  closed.  During the await of the second, the controller runs \<open>clear()\<close> (a new
  recording session, or the handshake listener on \<open>FAILED\<close>) and then \<open>add\<close>s the chunk
  \<open>[9]\<close>.
\<close>

definition raising_send :: "(nat, chunk list) send_callback" where
  "raising_send c w = (if c = [2] then Inl 99 else Inr (fst w, snd w @ [c]))"

definition reentrant_send :: "(nat, chunk list) send_callback" where
  "reentrant_send c w = Inr (add [9] (clear (fst w)), snd w @ [c])"

section \<open>Output sanitizer (logic/sanitizer.py)\<close>

text \<open>
  A Python \<open>str\<close> is a sequence of Unicode code points; the sanitizer's input comes
  from the server and may hold any of them, so a string is a list of code points.
\<close>

type_synonym pystr = "nat list"

definition code_points :: "string \<Rightarrow> pystr" where
  "code_points s = map of_char s"

subsection \<open>\<open>ANSI_ESCAPE_REGEX\<close>\<close>

text \<open>
  The first alternative, \<^verbatim>\<open>\x1b\[[0-9;]*[mGKH]\<close>: ESC, \<open>[\<close>, the longest run of digits
  and semicolons, then one of \<open>m G K H\<close>.  The run and the final character are disjoint
  classes, so backtracking into the run finds nothing more.  A match returns the text
  after it.
\<close>

definition is_csi_param :: "nat \<Rightarrow> bool" where
  "is_csi_param c = ((48 \<le> c \<and> c \<le> 57) \<or> c = 59)"

definition is_csi_final :: "nat \<Rightarrow> bool" where
  "is_csi_final c = (c = 109 \<or> c = 71 \<or> c = 75 \<or> c = 72)"

fun match_csi :: "pystr \<Rightarrow> pystr option" where
  "match_csi (e # b # rest) =
     (if e = 27 \<and> b = 91 then
        (case dropWhile is_csi_param rest of
           [] \<Rightarrow> None
         | c # rest' \<Rightarrow> if is_csi_final c then Some rest' else None)
      else None)"
| "match_csi _ = None"

text \<open>
  The second alternative, \<^verbatim>\<open>\x1b]0;.*?\x07\<close>: ESC, \<open>]\<close>, \<open>0\<close>, \<open>;\<close>, then lazily up to
  the first BEL; without \<open>DOTALL\<close> the dot does not match a line feed, so a line feed
  before the BEL ends the attempt.
\<close>

fun osc_body :: "pystr \<Rightarrow> pystr option" where
  "osc_body [] = None"
| "osc_body (c # cs) = (if c = 7 then Some cs else if c = 10 then None else osc_body cs)"

fun match_osc :: "pystr \<Rightarrow> pystr option" where
  "match_osc (e # b # z # s # rest) =
     (if e = 27 \<and> b = 93 \<and> z = 48 \<and> s = 59 then osc_body rest else None)"
| "match_osc _ = None"

definition match_ansi :: "pystr \<Rightarrow> pystr option" where
  "match_ansi s = (case match_csi s of Some r \<Rightarrow> Some r | None \<Rightarrow> match_osc s)"

lemma osc_body_length: "osc_body s = Some r \<Longrightarrow> length r < length s"
  by (induction s) (auto split: if_splits)

lemma match_csi_length: "match_csi s = Some r \<Longrightarrow> length r < length s"
proof (cases s rule: match_csi.cases)
  case (1 e b rest)
  assume m: "match_csi s = Some r"
  have "length (dropWhile is_csi_param rest) \<le> length rest"
    by (rule length_dropWhile_le)
  with 1 m show ?thesis
    by (auto split: if_splits list.splits)
qed simp_all

lemma match_osc_length: "match_osc s = Some r \<Longrightarrow> length r < length s"
  by (cases s rule: match_osc.cases) (auto split: if_splits dest: osc_body_length)

lemma match_ansi_length: "match_ansi s = Some r \<Longrightarrow> length r < length s"
  by (auto simp: match_ansi_def split: option.splits dest: match_csi_length match_osc_length)

text \<open>
  \<open>ANSI_ESCAPE_REGEX.sub('', text)\<close>: scan from the left; where the pattern matches,
  drop the match and go on after it; elsewhere keep the character and move one on.
\<close>

function ansi_sub :: "pystr \<Rightarrow> pystr" where
  "ansi_sub [] = []"
| "ansi_sub (c # cs) =
     (case match_ansi (c # cs) of
        Some rest \<Rightarrow> ansi_sub rest
      | None \<Rightarrow> c # ansi_sub cs)"
  by pat_completeness auto
termination
  by (relation "measure length") (auto dest: match_ansi_length)

subsection \<open>\<open>WHITELIST_REGEX\<close>, \<open>str.strip\<close> and \<open>sanitize\<close>\<close>

text \<open>\<^verbatim>\<open>[^\x20-\x7E\n\r\t]\<close> is replaced by nothing: the other characters stay.\<close>

definition whitelisted :: "nat \<Rightarrow> bool" where
  "whitelisted c = ((32 \<le> c \<and> c \<le> 126) \<or> c = 10 \<or> c = 13 \<or> c = 9)"

definition whitelist_sub :: "pystr \<Rightarrow> pystr" where
  "whitelist_sub s = filter whitelisted s"

text \<open>
  \<open>str.strip()\<close> removes, at both ends, the characters for which \<open>str.isspace\<close> holds:
  U+0009..U+000D, U+001C..U+0020, U+0085, U+00A0, U+1680, U+2000..U+200A, U+2028,
  U+2029, U+202F, U+205F and U+3000.
\<close>

definition py_isspace :: "nat \<Rightarrow> bool" where
  "py_isspace c =
     ((9 \<le> c \<and> c \<le> 13) \<or> (28 \<le> c \<and> c \<le> 32) \<or> c = 133 \<or> c = 160 \<or> c = 5760 \<or>
      (8192 \<le> c \<and> c \<le> 8202) \<or> c = 8232 \<or> c = 8233 \<or> c = 8239 \<or> c = 8287 \<or> c = 12288)"

definition py_strip :: "pystr \<Rightarrow> pystr" where
  "py_strip s = rev (dropWhile py_isspace (rev (dropWhile py_isspace s)))"

text \<open>
  \<open>sanitize\<close>.  The two substitutions and \<open>strip\<close> do not raise on a \<open>str\<close>, so the
  \<open>except\<close> branch has no input that reaches it; the warning is a log line only.
\<close>

definition sanitize :: "pystr \<Rightarrow> pystr" where
  "sanitize text =
     (if text = [] then []
      else py_strip (whitelist_sub (ansi_sub text)))"

section \<open>The asyncio runtime, as far as the transport uses it\<close>

text \<open>
  The handshake state machine and the transport create, cancel and await asyncio
  tasks, write to a WebSocket and call listeners.  The runtime holds what these
  effects leave behind: a clock in seconds, the table of tasks (a task handle is its
  index), and the trace of calls that leave the client code, in the order they were
  made.  A call of \<open>ws.send\<close>, \<open>ws.close\<close> or of a listener is recorded in the trace;
  what the websockets library or a listener does inside the call is not code of the
  transport.  A call of \<open>ws.send\<close> or of a listener is taken to return; awaiting
  \<open>ws.close\<close> may suspend the caller, and that is where a cancellation of the running
  task arrives.
\<close>

datatype HandshakeState = LOCKED | AUTHENTICATING | AUTHENTICATED | FAILED | BANNED

text \<open>
  The value \<open>json.loads\<close> returns.  A number is a Python \<open>int\<close> or a \<open>float\<close> (by the
  rational it denotes, or not finite); a \<open>dict\<close> is the list of its items, keys distinct.
\<close>

datatype json =
    JNull
  | JBool bool
  | JInt int
  | JFloat rat
  | JNonFinite
  | JStr pystr
  | JArr "json list"
  | JObj "(pystr \<times> json) list"

datatype frame = BinaryFrame chunk | TextFrame json

datatype ws_message = StrMessage pystr | BytesMessage chunk

text \<open>
  The coroutines wrapped in tasks: \<open>_timeout_coro\<close> of the state machine, \<open>_timeout\<close> of
  \<open>_reset_idle_timer\<close>, \<open>_listen_loop\<close>, and the call of an asynchronous handshake
  listener.  A task sleeps until \<open>wake_at\<close> and runs once resumed.  \<open>cancel()\<close> on a
  sleeping task cancels it; on the task that is running (a coroutine cancelling the
  task it runs in) it only requests the cancellation, which is raised as
  \<open>CancelledError\<close> at the next suspension of that task, or ends the task as cancelled
  when its coroutine returns first; on a done task it does nothing.
\<close>

datatype coroutine =
    HandshakeTimeout
  | IdleTimeout
  | ListenLoop
  | ListenerCall nat HandshakeState

datatype task_status = Sleeping | Running | Cancelling | Cancelled | Finished

record task =
  coro :: coroutine
  wake_at :: nat
  status :: task_status

datatype effect =
    WsSend frame
  | WsClose nat pystr
  | Notified nat HandshakeState
  | Delivered nat json

record runtime =
  clock :: nat
  tasks :: "task list"
  trace :: "effect list"

definition create_task :: "coroutine \<Rightarrow> nat \<Rightarrow> runtime \<Rightarrow> nat \<times> runtime" where
  "create_task c wake rt =
     (length (tasks rt),
      rt\<lparr>tasks := tasks rt @ [\<lparr>coro = c, wake_at = wake, status = Sleeping\<rparr>]\<rparr>)"

definition set_status :: "nat \<Rightarrow> task_status \<Rightarrow> runtime \<Rightarrow> runtime" where
  "set_status i s rt = rt\<lparr>tasks := (tasks rt)[i := (tasks rt ! i)\<lparr>status := s\<rparr>]\<rparr>"

definition cancel_task :: "nat \<Rightarrow> runtime \<Rightarrow> runtime" where
  "cancel_task i rt =
     (if i < length (tasks rt) then
        (case status (tasks rt ! i) of
           Sleeping \<Rightarrow> set_status i Cancelled rt
         | Running \<Rightarrow> set_status i Cancelling rt
         | _ \<Rightarrow> rt)
      else rt)"

text \<open>
  The task a piece of code runs in is \<open>Some i\<close> when it is a task of the table, \<open>None\<close>
  when the caller is outside it (the controller's tasks, which nothing here cancels).
\<close>

definition cancel_pending :: "nat option \<Rightarrow> runtime \<Rightarrow> bool" where
  "cancel_pending me rt =
     (case me of
        Some i \<Rightarrow> i < length (tasks rt) \<and> status (tasks rt ! i) = Cancelling
      | None \<Rightarrow> False)"

definition emit :: "effect \<Rightarrow> runtime \<Rightarrow> runtime" where
  "emit e rt = rt\<lparr>trace := trace rt @ [e]\<rparr>"

section \<open>Handshake state machine (logic/handshake.py)\<close>

text \<open>
  A listener is a callback, known by a number; \<open>asyncio.iscoroutinefunction\<close> tells the
  two kinds apart.  An asynchronous one is scheduled as a task, a synchronous one is
  called on the spot.
\<close>

datatype listener = SyncListener nat | AsyncListener nat

record HandshakeStateMachine =
  state :: HandshakeState
  timeout_duration :: nat
  timeout_task :: "nat option"
  listeners :: "listener list"

definition handshake_init :: HandshakeStateMachine where
  "handshake_init = \<lparr>state = LOCKED, timeout_duration = 15, timeout_task = None, listeners = []\<rparr>"

fun is_valid_transition :: "HandshakeState \<Rightarrow> HandshakeState \<Rightarrow> bool" where
  "is_valid_transition from_state to_state =
     (if to_state = BANNED then True
      else if from_state = LOCKED then to_state \<in> set [AUTHENTICATING, FAILED]
      else if from_state = AUTHENTICATING then to_state \<in> set [AUTHENTICATED, FAILED]
      else if from_state = AUTHENTICATED then to_state = LOCKED
      else if from_state = FAILED then to_state = LOCKED
      else if from_state = BANNED then to_state = LOCKED
      else False)"

definition cancel_timeout :: "runtime \<times> HandshakeStateMachine \<Rightarrow> runtime \<times> HandshakeStateMachine" where
  "cancel_timeout w =
     (case timeout_task (snd w) of
        Some i \<Rightarrow> (cancel_task i (fst w), (snd w)\<lparr>timeout_task := None\<rparr>)
      | None \<Rightarrow> w)"

definition start_timeout :: "runtime \<times> HandshakeStateMachine \<Rightarrow> runtime \<times> HandshakeStateMachine" where
  "start_timeout w =
     (let w1 = cancel_timeout w;
          new = create_task HandshakeTimeout (clock (fst w1) + timeout_duration (snd w1)) (fst w1)
      in (snd new, (snd w1)\<lparr>timeout_task := Some (fst new)\<rparr>))"

fun notify_listeners :: "HandshakeState \<Rightarrow> listener list \<Rightarrow> runtime \<Rightarrow> runtime" where
  "notify_listeners new_state [] rt = rt"
| "notify_listeners new_state (AsyncListener l # ls) rt =
     notify_listeners new_state ls (snd (create_task (ListenerCall l new_state) (clock rt) rt))"
| "notify_listeners new_state (SyncListener l # ls) rt =
     notify_listeners new_state ls (emit (Notified l new_state) rt)"

definition transition_to ::
  "HandshakeState \<Rightarrow> runtime \<times> HandshakeStateMachine \<Rightarrow> runtime \<times> HandshakeStateMachine" where
  "transition_to new_state w =
     (if state (snd w) = new_state then w
      else if \<not> is_valid_transition (state (snd w)) new_state then w
      else
        (let h = (snd w)\<lparr>state := new_state\<rparr>;
             rt = notify_listeners new_state (listeners h) (fst w)
         in if new_state = AUTHENTICATING then start_timeout (rt, h)
            else cancel_timeout (rt, h)))"

definition can_send_audio :: "HandshakeStateMachine \<Rightarrow> bool" where
  "can_send_audio h = (state h = AUTHENTICATED)"

definition reset :: "runtime \<times> HandshakeStateMachine \<Rightarrow> runtime \<times> HandshakeStateMachine" where
  "reset w = transition_to LOCKED (cancel_timeout w)"

definition add_listener :: "listener \<Rightarrow> HandshakeStateMachine \<Rightarrow> HandshakeStateMachine" where
  "add_listener cb h = h\<lparr>listeners := listeners h @ [cb]\<rparr>"


section \<open>Transport (services/transport\_service.py)\<close>

text \<open>
  \<open>cfg.IDLE_TIMEOUT\<close> is \<open>int(os.getenv("IDLE_TIMEOUT", 300))\<close>, any integer;
  \<open>asyncio.sleep\<close> of a delay that is not positive returns at once.  The socket
  handle \<open>_ws\<close> is \<open>None\<close> or a connection object, known by a number.
\<close>

record config =
  IDLE_TIMEOUT :: int
  incognito :: bool

record TransportService =
  ws :: "nat option"
  handshake :: HandshakeStateMachine
  message_listeners :: "nat list"
  receive_task :: "nat option"
  idle_timer :: "nat option"

type_synonym world = "runtime \<times> TransportService"

definition transport_init :: TransportService where
  "transport_init =
     \<lparr>ws = None, handshake = handshake_init, message_listeners = [],
      receive_task = None, idle_timer = None\<rparr>"

definition runtime_init :: runtime where
  "runtime_init = \<lparr>clock = 0, tasks = [], trace = []\<rparr>"

definition on_handshake ::
  "(runtime \<times> HandshakeStateMachine \<Rightarrow> runtime \<times> HandshakeStateMachine) \<Rightarrow> world \<Rightarrow> world" where
  "on_handshake f w =
     (let r = f (fst w, handshake (snd w)) in (fst r, (snd w)\<lparr>handshake := snd r\<rparr>))"

definition reset_idle_timer :: "config \<Rightarrow> world \<Rightarrow> world" where
  "reset_idle_timer cfg w =
     (let rt1 = (case idle_timer (snd w) of Some i \<Rightarrow> cancel_task i (fst w) | None \<Rightarrow> fst w);
          new = create_task IdleTimeout (clock rt1 + nat (IDLE_TIMEOUT cfg)) rt1
      in (snd new, (snd w)\<lparr>idle_timer := Some (fst new)\<rparr>))"

definition send_audio :: "config \<Rightarrow> chunk \<Rightarrow> world \<Rightarrow> world" where
  "send_audio cfg chunk w =
     (if can_send_audio (handshake (snd w)) \<and> ws (snd w) \<noteq> None then
        (let w1 = reset_idle_timer cfg w
         in (emit (WsSend (BinaryFrame chunk)) (fst w1), snd w1))
      else w)"

definition send_json :: "config \<Rightarrow> json \<Rightarrow> world \<Rightarrow> world" where
  "send_json cfg data w =
     (if ws (snd w) \<noteq> None then
        (let w1 = reset_idle_timer cfg w
         in (emit (WsSend (TextFrame data)) (fst w1), snd w1))
      else w)"

text \<open>
  \<open>disconnect\<close>, run in task \<open>me\<close>.  Its one suspension point is
  \<open>await self._ws.close(1000, reason)\<close>; whether the close suspends (\<open>suspends\<close>) is
  the library's and the connection's matter.  When it does and the running task has
  been cancelled by then (\<open>disconnect\<close> itself cancels the idle timer and the receive
  task, and is called from both), \<open>CancelledError\<close> is raised there and
  \<open>self._ws = None\<close> is not reached.
\<close>

datatype ending = Completed | CancelledError

definition disconnect :: "nat option \<Rightarrow> bool \<Rightarrow> pystr \<Rightarrow> world \<Rightarrow> ending \<times> world" where
  "disconnect me suspends reason w =
     (let w1 = on_handshake reset w;
          w2 = (case idle_timer (snd w1) of
                  Some i \<Rightarrow> (cancel_task i (fst w1), (snd w1)\<lparr>idle_timer := None\<rparr>)
                | None \<Rightarrow> w1);
          w3 = (case receive_task (snd w2) of
                  Some i \<Rightarrow> (cancel_task i (fst w2), (snd w2)\<lparr>receive_task := None\<rparr>)
                | None \<Rightarrow> w2)
      in (case ws (snd w3) of
            Some c \<Rightarrow>
              (let rt4 = emit (WsClose 1000 reason) (fst w3) in
               if suspends \<and> cancel_pending me rt4 then (CancelledError, (rt4, snd w3))
               else (Completed, (rt4, (snd w3)\<lparr>ws := None\<rparr>)))
          | None \<Rightarrow> (Completed, w3)))"

text \<open>
  \<open>msg.get(key)\<close> on a \<open>dict\<close>: the value, or \<open>None\<close> when the key is missing.
  \<open>code in [401, 403, 1008]\<close> and \<open>code == 1008\<close> compare by \<open>==\<close>: an \<open>int\<close> or a
  \<open>float\<close> by value, a \<open>bool\<close> as 0 or 1, anything else is unequal to an \<open>int\<close>.
\<close>

definition dict_get :: "(pystr \<times> json) list \<Rightarrow> pystr \<Rightarrow> json" where
  "dict_get kv k = (case map_of kv k of Some v \<Rightarrow> v | None \<Rightarrow> JNull)"

fun py_eq_int :: "json \<Rightarrow> int \<Rightarrow> bool" where
  "py_eq_int (JInt i) n = (i = n)"
| "py_eq_int (JFloat q) n = (q = of_int n)"
| "py_eq_int (JBool b) n = ((if b then 1 else 0) = n)"
| "py_eq_int _ n = False"

fun deliver :: "json \<Rightarrow> nat list \<Rightarrow> runtime \<Rightarrow> runtime" where
  "deliver msg [] rt = rt"
| "deliver msg (cb # cbs) rt = deliver msg cbs (emit (Delivered cb msg) rt)"

definition notify_message_listeners :: "json \<Rightarrow> world \<Rightarrow> world" where
  "notify_message_listeners msg w = (deliver msg (message_listeners (snd w)) (fst w), snd w)"

definition dispatch :: "(pystr \<times> json) list \<Rightarrow> world \<Rightarrow> world" where
  "dispatch kv w =
     (let event = dict_get kv (code_points ''event'') in
      if event = JStr (code_points ''hello'') then w
      else if event = JStr (code_points ''authenticated'') then
        on_handshake (transition_to AUTHENTICATED) w
      else if event = JStr (code_points ''error'') then
        (let code = dict_get kv (code_points ''code'');
             w1 = (if py_eq_int code 401 \<or> py_eq_int code 403 \<or> py_eq_int code 1008 then
                     (let w' = on_handshake (transition_to FAILED) w
                      in if py_eq_int code 1008 then on_handshake (transition_to BANNED) w' else w')
                   else w)
         in notify_message_listeners (JObj kv) w1)
      else notify_message_listeners (JObj kv) w)"

text \<open>
  \<open>_handle_raw_message\<close>.  The parser \<open>json.loads\<close> is a parameter: \<open>None\<close> is its
  exception.  That exception, and the \<open>AttributeError\<close> of \<open>msg.get\<close> on a value that
  is not a \<open>dict\<close>, are caught by the \<open>except\<close> clause, which only logs.
\<close>

definition handle_raw_message :: "config \<Rightarrow> (pystr \<Rightarrow> json option) \<Rightarrow> ws_message \<Rightarrow> world \<Rightarrow> world" where
  "handle_raw_message cfg loads data w =
     (case data of
        BytesMessage b \<Rightarrow> w
      | StrMessage s \<Rightarrow>
          (let w1 = reset_idle_timer cfg w in
           case loads s of
             None \<Rightarrow> w1
           | Some msg \<Rightarrow> (case msg of JObj kv \<Rightarrow> dispatch kv w1 | _ \<Rightarrow> w1)))"

text \<open>
  \<open>connect\<close>.  What \<open>websockets.connect\<close> and \<open>sec_cfg.get_api_key\<close> answer comes from
  outside: each returns a value or raises, with the text of the exception.
\<close>

datatype 'a outcome = Returned 'a | Raised pystr

definition build_hello :: "pystr \<Rightarrow> pystr \<Rightarrow> bool \<Rightarrow> json" where
  "build_hello token auth_type incog =
     JObj [(code_points ''event'', JStr (code_points ''hello'')),
           (code_points ''client'', JStr (code_points ''whisper.client.terminal'')),
           (code_points ''version'', JStr (code_points ''2.20.0'')),
           (code_points ''auth_type'', JStr auth_type),
           (code_points ''token'', JStr token),
           (code_points ''incognito'', JBool incog)]"

definition connect :: "config \<Rightarrow> nat outcome \<Rightarrow> pystr outcome \<Rightarrow> world \<Rightarrow> bool \<times> world" where
  "connect cfg dial key w =
     (if ws (snd w) \<noteq> None then (True, w)
      else
        (let w1 = on_handshake reset w in
         case dial of
           Raised e \<Rightarrow> (False, snd (disconnect None False e w1))
         | Returned c \<Rightarrow>
             (let new = create_task ListenLoop (clock (fst w1)) (fst w1);
                  w2 = (snd new, (snd w1)\<lparr>ws := Some c, receive_task := Some (fst new)\<rparr>)
              in case key of
                   Raised e \<Rightarrow> (False, snd (disconnect None False e w2))
                 | Returned api_key \<Rightarrow>
                     if api_key = [] then
                       (False, snd (disconnect None False
                          (code_points ''No API Key available for authentication.'') w2))
                     else
                       (let payload = build_hello api_key (code_points ''api_key'') (incognito cfg);
                            w3 = send_json cfg payload w2
                        in (True, on_handshake (transition_to AUTHENTICATING) w3)))))"

definition ensure_connected :: "config \<Rightarrow> nat outcome \<Rightarrow> pystr outcome \<Rightarrow> world \<Rightarrow> bool \<times> world" where
  "ensure_connected cfg dial key w =
     (if state (handshake (snd w)) = AUTHENTICATED then (True, w) else connect cfg dial key w)"

definition add_message_listener :: "nat \<Rightarrow> TransportService \<Rightarrow> TransportService" where
  "add_message_listener cb t = t\<lparr>message_listeners := message_listeners t @ [cb]\<rparr>"

text \<open>
  The scheduler resumes a sleeping task once its wake-up time has come.  The task is
  running while the rest of its coroutine executes: \<open>_timeout_coro\<close> after its sleep,
  \<open>_timeout\<close> of the idle timer after its sleep, or the listener.  When the coroutine
  is left, by return or by \<open>CancelledError\<close>, the task is finished, or cancelled if its
  cancellation was requested meanwhile.  The listen loop is driven by the frames that
  arrive, not by the clock.
\<close>

definition begin_task :: "nat \<Rightarrow> runtime \<Rightarrow> runtime" where
  "begin_task i rt = set_status i Running rt"

definition end_task :: "nat \<Rightarrow> runtime \<Rightarrow> runtime" where
  "end_task i rt =
     (if i < length (tasks rt) then
        (case status (tasks rt ! i) of
           Running \<Rightarrow> set_status i Finished rt
         | Cancelling \<Rightarrow> set_status i Cancelled rt
         | _ \<Rightarrow> rt)
      else rt)"

definition timeout_coro :: "world \<Rightarrow> world" where
  "timeout_coro w =
     (if state (handshake (snd w)) = AUTHENTICATING
      then on_handshake (transition_to FAILED) w else w)"

definition idle_timeout_coro :: "nat \<Rightarrow> bool \<Rightarrow> world \<Rightarrow> world" where
  "idle_timeout_coro me suspends w =
     (if ws (snd w) \<noteq> None
      then snd (disconnect (Some me) suspends (code_points ''Idle Timeout'') w) else w)"

definition run_task :: "nat \<Rightarrow> bool \<Rightarrow> world \<Rightarrow> world" where
  "run_task i suspends w =
     (if i < length (tasks (fst w)) \<and> status (tasks (fst w) ! i) = Sleeping
         \<and> wake_at (tasks (fst w) ! i) \<le> clock (fst w)
         \<and> coro (tasks (fst w) ! i) \<noteq> ListenLoop
      then
        (let w1 = (begin_task i (fst w), snd w);
             w2 = (case coro (tasks (fst w) ! i) of
                     HandshakeTimeout \<Rightarrow> timeout_coro w1
                   | IdleTimeout \<Rightarrow> idle_timeout_coro i suspends w1
                   | ListenLoop \<Rightarrow> w1
                   | ListenerCall l s \<Rightarrow> (emit (Notified l s) (fst w1), snd w1))
         in (end_task i (fst w2), snd w2))
      else w)"

text \<open>
  \<open>_listen_loop\<close>, the task that waits for frames: a frame goes to
  \<open>_handle_raw_message\<close>; an exception (\<open>ConnectionClosed\<close> or any other) goes to
  \<open>disconnect\<close> with a reason, in the listen task itself, and ends the loop.
\<close>

definition listening :: "runtime \<Rightarrow> nat \<Rightarrow> bool" where
  "listening rt i =
     (i < length (tasks rt) \<and> coro (tasks rt ! i) = ListenLoop \<and> status (tasks rt ! i) = Sleeping)"

definition listen_loop_message ::
  "config \<Rightarrow> (pystr \<Rightarrow> json option) \<Rightarrow> nat \<Rightarrow> ws_message \<Rightarrow> world \<Rightarrow> world" where
  "listen_loop_message cfg loads i m w =
     (if listening (fst w) i then handle_raw_message cfg loads m w else w)"

definition listen_loop_failed :: "nat \<Rightarrow> bool \<Rightarrow> pystr \<Rightarrow> world \<Rightarrow> world" where
  "listen_loop_failed i suspends reason w =
     (if listening (fst w) i then
        (let w1 = (begin_task i (fst w), snd w);
             w2 = snd (disconnect (Some i) suspends reason w1)
         in (end_task i (fst w2), snd w2))
      else w)"

text \<open>Worlds and inputs used in the examples.\<close>

definition world_init :: world where
  "world_init = (runtime_init, transport_init)"

definition cfg0 :: config where
  "cfg0 = \<lparr>IDLE_TIMEOUT = 300, incognito = False\<rparr>"

definition err401 :: json where
  "err401 = JObj [(code_points ''event'', JStr (code_points ''error'')), (code_points ''code'', JInt 401)]"

definition world_authenticated :: world where
  "world_authenticated =
     (\<lparr>clock = 40, tasks = [\<lparr>coro = ListenLoop, wake_at = 0, status = Sleeping\<rparr>,
                            \<lparr>coro = IdleTimeout, wake_at = 310, status = Sleeping\<rparr>], trace = []\<rparr>,
      \<lparr>ws = Some 7,
       handshake = \<lparr>state = AUTHENTICATED, timeout_duration = 15, timeout_task = None,
                    listeners = [AsyncListener 0]\<rparr>,
       message_listeners = [0, 1], receive_task = Some 0, idle_timer = Some 1\<rparr>)"

definition text401 :: pystr where
  "text401 = [123, 34, 101, 118, 101, 110, 116, 34, 58, 34, 101, 114, 114, 111, 114, 34, 44,
              34, 99, 111, 100, 101, 34, 58, 52, 48, 49, 125]"

definition loads_example :: "pystr \<Rightarrow> json option" where
  "loads_example = map_of [(text401, err401)]"

text \<open>The calls of message listeners in a trace, in order.\<close>

fun deliveries :: "effect list \<Rightarrow> (nat \<times> json) list" where
  "deliveries [] = []"
| "deliveries (Delivered cb msg # es) = (cb, msg) # deliveries es"
| "deliveries (e # es) = deliveries es"

section \<open>Runs of the transport\<close>

text \<open>
  What can happen to a transport, one event at a time: a call of its interface
  (\<open>send_audio\<close>, \<open>_send_json\<close>, \<open>connect\<close>, \<open>ensure_connected\<close>, \<open>disconnect\<close>, the two
  registrations), a frame or a failure reaching \<open>_listen_loop\<close> (every exception
  there ends in \<open>disconnect\<close> with a reason), time passing, and the scheduler resuming
  a task whose sleep is over.  A frame or a failure names the listen task it reaches; a
  step that runs into \<open>ws.close\<close> says whether the close suspends.
\<close>

datatype event =
    SendAudio chunk
  | SendJson json
  | Receive nat ws_message
  | ListenFailed nat bool pystr
  | Connect "nat outcome" "pystr outcome"
  | EnsureConnected "nat outcome" "pystr outcome"
  | Disconnect pystr
  | AddMessageListener nat
  | AddHandshakeListener listener
  | Advance nat
  | RunTask nat bool

definition step :: "config \<Rightarrow> (pystr \<Rightarrow> json option) \<Rightarrow> event \<Rightarrow> world \<Rightarrow> world" where
  "step cfg loads ev w =
     (case ev of
        SendAudio c \<Rightarrow> send_audio cfg c w
      | SendJson d \<Rightarrow> send_json cfg d w
      | Receive i m \<Rightarrow> listen_loop_message cfg loads i m w
      | ListenFailed i suspends r \<Rightarrow> listen_loop_failed i suspends r w
      | Connect d k \<Rightarrow> snd (connect cfg d k w)
      | EnsureConnected d k \<Rightarrow> snd (ensure_connected cfg d k w)
      | Disconnect r \<Rightarrow> snd (disconnect None False r w)
      | AddMessageListener cb \<Rightarrow> (fst w, add_message_listener cb (snd w))
      | AddHandshakeListener cb \<Rightarrow> (fst w, (snd w)\<lparr>handshake := add_listener cb (handshake (snd w))\<rparr>)
      | Advance d \<Rightarrow> ((fst w)\<lparr>clock := clock (fst w) + d\<rparr>, snd w)
      | RunTask i suspends \<Rightarrow> run_task i suspends w)"

text \<open>
  Activity, as the wire shows it: the event is a text frame received by a listen loop
  that is alive, or the step hands a frame to \<open>ws.send\<close> (the count of sent frames
  grows).
\<close>

fun is_send :: "effect \<Rightarrow> bool" where
  "is_send (WsSend f) = True"
| "is_send _ = False"

definition sends :: "runtime \<Rightarrow> nat" where
  "sends rt = length (filter is_send (trace rt))"

definition activity :: "config \<Rightarrow> (pystr \<Rightarrow> json option) \<Rightarrow> event \<Rightarrow> world \<Rightarrow> bool" where
  "activity cfg loads ev w =
     (case ev of
        Receive i (StrMessage s) \<Rightarrow> listening (fst w) i
      | _ \<Rightarrow> sends (fst w) < sends (fst (step cfg loads ev w)))"

text \<open>
  A run carries, beside the world, the clock reading at the latest event that was an
  activity (\<open>None\<close> while there has been none).
\<close>

fun run :: "config \<Rightarrow> (pystr \<Rightarrow> json option) \<Rightarrow> event list \<Rightarrow> world \<times> nat option \<Rightarrow> world \<times> nat option" where
  "run cfg loads [] s = s"
| "run cfg loads (ev # es) s =
     run cfg loads es
       (step cfg loads ev (fst s),
        if activity cfg loads ev (fst s) then Some (clock (fst (fst s))) else snd s)"

text \<open>
  An idle timer is armed when its task is still sleeping.  A world is \<open>started\<close> when
  it is as the constructors leave it: no task yet, no handle set.
\<close>

definition armed :: "runtime \<Rightarrow> nat \<Rightarrow> bool" where
  "armed rt i =
     (i < length (tasks rt) \<and> coro (tasks rt ! i) = IdleTimeout \<and> status (tasks rt ! i) = Sleeping)"

definition started :: "world \<Rightarrow> bool" where
  "started w = (tasks (fst w) = [] \<and> idle_timer (snd w) = None \<and> timeout_task (handshake (snd w)) = None)"

definition example_session :: "event list" where
  "example_session =
     [Connect (Returned 7) (Returned [65]), Advance 10, Receive 0 (StrMessage []), Advance 300]"

section \<open>Properties of the audio buffer\<close>

lemma flush_loop_plain:
  "flush_loop (plain_send f) cs (m, s) = Inr (m, foldl (\<lambda>s c. f c m s) s cs)"
  by (induction cs arbitrary: s) (simp_all add: plain_send_def)

text \<open>
  Claim C8.  \<open>count\<close> never exceeds 20000: the bound holds initially and every
  operation (\<open>add\<close>, \<open>clear\<close>, \<open>flush\<close> with any callback that leaves the manager
  alone) preserves it; \<open>add\<close> on a full buffer in buffering mode drops the oldest chunk
  and appends the new one.
\<close>

theorem count_bound_preserved:
  "count abm_init \<le> 20000 \<and>
   (count m \<le> 20000 \<longrightarrow> count (add c m) \<le> 20000) \<and>
   count (clear m) \<le> 20000 \<and>
   (count m \<le> 20000 \<longrightarrow>
      (case flush (plain_send f :: (unit, 's) send_callback) (m, s) of
         Inl e \<Rightarrow> False | Inr w \<Rightarrow> count (fst w) \<le> 20000)) \<and>
   (count m = 20000 \<and> is_buffering m \<longrightarrow>
      buffer (add c m) = tl (buffer m) @ [c] \<and> count (add c m) = 20000)"
proof -
  have a: "count m \<le> 20000 \<longrightarrow> count (add c m) \<le> 20000"
    by (auto simp: count_def add_def MAX_CHUNKS_def)
  have f: "count m \<le> 20000 \<longrightarrow>
      (case flush (plain_send f :: (unit, 's) send_callback) (m, s) of
         Inl e \<Rightarrow> False | Inr w \<Rightarrow> count (fst w) \<le> 20000)"
    by (simp add: flush_def Let_def flush_loop_plain count_def)
  have e: "count m = 20000 \<and> is_buffering m \<longrightarrow>
      buffer (add c m) = tl (buffer m) @ [c] \<and> count (add c m) = 20000"
    by (auto simp: count_def add_def MAX_CHUNKS_def)
  show ?thesis
    using a f e by (simp add: count_def abm_init_def clear_def)
qed

theorem count_bound_preserved_witness:
  "count \<lparr>buffer = replicate 20000 [1, 2], is_buffering = True\<rparr> = 20000 \<and>
   buffer (add [7] \<lparr>buffer = replicate 20000 [1, 2], is_buffering = True\<rparr>)
     = tl (replicate 20000 [1, 2]) @ [[7]] \<and>
   count (add [7] \<lparr>buffer = replicate 20000 [1, 2], is_buffering = True\<rparr>) = 20000"
  using count_bound_preserved
    [of "\<lparr>buffer = replicate 20000 [1, 2], is_buffering = True\<rparr>" "[7]" record_send "[]"]
  by (simp add: count_def)

lemma flush_loop_returning:
  assumes "\<And>c m s. send c (m, s) = Inr (m, f c m s)"
  shows "flush_loop send cs (m, s) = Inr (m, foldl (\<lambda>s c. f c m s) s cs)"
  using assms by (induction cs arbitrary: s) simp_all

lemma plain_send_returns: "plain_send f c (m, s) = Inr (m, f c m s)"
  by (simp add: plain_send_def)

text \<open>
  Claim C9, as the claim states it, fails for a callback that raises or that lets the
  manager change while it is awaited.  With the chunks \<open>[1]\<close>, \<open>[2]\<close>, \<open>[3]\<close> buffered:
  when the callback raises on \<open>[2]\<close>, \<open>flush\<close> ends with that exception and \<open>[3]\<close> is
  never passed; when \<open>clear()\<close> and \<open>add\<close> run during the awaits, every chunk is
  passed, but \<open>flush\<close> returns with a chunk in the buffer and \<open>buffering = True\<close>.
\<close>

theorem flush_callback_counterexample:
  "flush raising_send (\<lparr>buffer = [[1], [2], [3]], is_buffering = True\<rparr>, []) = Inl 99 \<and>
   flush reentrant_send (\<lparr>buffer = [[1], [2], [3]], is_buffering = True\<rparr>, [])
     = Inr (\<lparr>buffer = [[9]], is_buffering = True\<rparr>, [[1], [2], [3]])"
  by (simp add: flush_def raising_send_def reentrant_send_def add_def clear_def MAX_CHUNKS_def)

text \<open>
  Claim C9, amended.  \<open>flush\<close> with a callback that returns normally for every chunk
  and during whose awaits the manager is not changed (\<open>f\<close> is what a call does to the
  rest of the world): the callback runs once for every chunk that was buffered at the
  call, in insertion order (the \<open>foldl\<close> over the old buffer); every one of these calls
  already sees the manager with an empty buffer and \<open>buffering = False\<close>; and \<open>flush\<close>
  returns with that manager, also when the buffer was empty from the start.
\<close>

theorem flush_sends_all_in_order:
  assumes "\<And>c m s. send c (m, s) = Inr (m, f c m s)"
  shows "flush send (m, s) =
     Inr (m\<lparr>buffer := [], is_buffering := False\<rparr>,
          foldl (\<lambda>s c. f c (m\<lparr>buffer := [], is_buffering := False\<rparr>) s) s (buffer m))"
  using flush_loop_returning [of send f, OF assms]
  by (simp add: flush_def Let_def)

theorem flush_sends_all_in_order_witness:
  "flush (plain_send record_send) (\<lparr>buffer = [[1], [2], [3]], is_buffering = True\<rparr>, [])
     = Inr (\<lparr>buffer = [], is_buffering = False\<rparr>, [([1], False, 0), ([2], False, 0), ([3], False, 0)]) \<and>
   flush (plain_send record_send) (\<lparr>buffer = [], is_buffering = True\<rparr>, [])
     = Inr (\<lparr>buffer = [], is_buffering = False\<rparr>, [])"
  using flush_sends_all_in_order [of "plain_send record_send" record_send
      "\<lparr>buffer = [[1], [2], [3]], is_buffering = True\<rparr>" "[]", OF plain_send_returns]
    flush_sends_all_in_order [of "plain_send record_send" record_send
      "\<lparr>buffer = [], is_buffering = True\<rparr>" "[]", OF plain_send_returns]
  by (simp add: record_send_def)

text \<open>
  Claim C10.  While \<open>buffering\<close> is false, \<open>add\<close> returns the manager it was given:
  the chunk is discarded, and the contents, the count and the flag are unchanged.
\<close>

theorem add_not_buffering_unchanged:
  "\<not> is_buffering m \<Longrightarrow> add c m = m"
  by (simp add: add_def)

theorem add_not_buffering_unchanged_witness:
  "\<not> is_buffering \<lparr>buffer = [[1], [2]], is_buffering = False\<rparr> \<and>
   add [9] \<lparr>buffer = [[1], [2]], is_buffering = False\<rparr> = \<lparr>buffer = [[1], [2]], is_buffering = False\<rparr>"
  using add_not_buffering_unchanged [of "\<lparr>buffer = [[1], [2]], is_buffering = False\<rparr>" "[9]"]
  by simp

section \<open>Properties of the sanitizer\<close>

lemma ansi_sub_no_esc: "27 \<notin> set s \<Longrightarrow> ansi_sub s = s"
proof (induction s)
  case Nil
  show ?case by simp
next
  case (Cons c cs)
  then have "c \<noteq> 27" by auto
  then have "match_ansi (c # cs) = None"
    by (cases cs; cases "tl cs"; cases "tl (tl cs)") (auto simp: match_ansi_def)
  with Cons show ?case by simp
qed

lemma set_ansi_sub: "set (ansi_sub s) \<subseteq> set s"
proof (induction s rule: ansi_sub.induct)
  case 1
  show ?case by simp
next
  case (2 c cs)
  show ?case
  proof (cases "match_ansi (c # cs)")
    case None
    with 2 show ?thesis by auto
  next
    case (Some rest)
    have suffix: "set r \<subseteq> set t" if "osc_body t = Some r" for r t
      using that by (induction t) (auto split: if_splits)
    have "set rest \<subseteq> set (c # cs)"
    proof (cases "match_csi (c # cs)")
      case csi: (Some r)
      with Some have r: "r = rest" by (simp add: match_ansi_def)
      from csi obtain b t where cs: "cs = b # t" and
        d: "dropWhile is_csi_param t = hd (dropWhile is_csi_param t) # r"
        by (cases cs) (auto split: if_splits list.splits)
      have "set r \<subseteq> set (dropWhile is_csi_param t)"
        by (subst d) auto
      also have "\<dots> \<subseteq> set t" by (auto dest: set_dropWhileD)
      finally show ?thesis using cs r by auto
    next
      case None
      with Some have osc: "match_osc (c # cs) = Some rest" by (simp add: match_ansi_def)
      then obtain t where "osc_body t = Some rest" and "set t \<subseteq> set (c # cs)"
        by (cases "c # cs" rule: match_osc.cases) (auto split: if_splits)
      with suffix show ?thesis by blast
    qed
    with 2 Some show ?thesis by auto
  qed
qed

lemma dropWhile_full_length: "length (dropWhile P s) \<ge> length s \<Longrightarrow> dropWhile P s = s"
proof (cases s)
  case Nil
  then show ?thesis by simp
next
  case (Cons x xs)
  assume l: "length (dropWhile P s) \<ge> length s"
  show ?thesis
  proof (cases "P x")
    case True
    then have "length (dropWhile P s) \<le> length xs"
      using Cons length_dropWhile_le [of P xs] by simp
    with l Cons show ?thesis by simp
  next
    case False
    with Cons show ?thesis by simp
  qed
qed

lemma strip_idem: "py_strip (py_strip s) = py_strip s"
proof -
  define a where "a = dropWhile py_isspace s"
  define b where "b = rev (dropWhile py_isspace (rev a))"
  have b_strip: "b = py_strip s" by (simp add: b_def a_def py_strip_def)
  have "dropWhile py_isspace b = b"
  proof (cases b)
    case Nil
    then show ?thesis by simp
  next
    case (Cons x xs)
    have "\<exists>k. b = take k a"
      unfolding b_def
      by (metis dropWhile_eq_drop rev_drop rev_rev_ident length_rev)
    then obtain k where k: "b = take k a" by blast
    with Cons have "a \<noteq> []" by auto
    then have "\<not> py_isspace (hd a)"
      unfolding a_def by (metis hd_dropWhile)
    moreover from k Cons have "hd a = x" by (cases a; cases k) auto
    ultimately show ?thesis using Cons by simp
  qed
  then have "py_strip b = rev (dropWhile py_isspace (rev b))"
    by (simp add: py_strip_def)
  also have "rev b = dropWhile py_isspace (rev a)" by (simp add: b_def)
  also have "rev (dropWhile py_isspace (dropWhile py_isspace (rev a))) = b"
    by (simp add: b_def)
  finally show ?thesis by (simp add: b_strip)
qed

lemma strip_ends: "py_strip s \<noteq> [] \<Longrightarrow> \<not> py_isspace (hd (py_strip s)) \<and> \<not> py_isspace (last (py_strip s))"
proof -
  assume ne: "py_strip s \<noteq> []"
  have "rev (dropWhile py_isspace (rev (dropWhile py_isspace (py_strip s)))) = py_strip s"
    using strip_idem [of s] by (simp add: py_strip_def)
  then have "length (dropWhile py_isspace (py_strip s)) \<ge> length (py_strip s)"
    by (metis length_dropWhile_le length_rev)
  then have "dropWhile py_isspace (py_strip s) = py_strip s"
    by (rule dropWhile_full_length)
  then have h: "\<not> py_isspace (hd (py_strip s))"
    using ne by (metis hd_dropWhile)
  have "rev (py_strip s) = dropWhile py_isspace (rev (dropWhile py_isspace s))"
    by (simp add: py_strip_def)
  then have "\<not> py_isspace (hd (rev (py_strip s)))"
    using ne by (metis hd_dropWhile rev_is_Nil_conv)
  then have "\<not> py_isspace (last (py_strip s))"
    using ne by (simp add: hd_rev)
  with h show ?thesis by simp
qed

lemma strip_all_space: "\<forall>c\<in>set s. py_isspace c \<Longrightarrow> py_strip s = []"
proof -
  assume "\<forall>c\<in>set s. py_isspace c"
  then show ?thesis
    by (auto simp: py_strip_def dest: set_dropWhileD)
qed

lemma set_strip: "set (py_strip s) \<subseteq> set s"
  unfolding py_strip_def
  by (metis set_rev set_dropWhileD subsetI)

lemma sanitize_whitelisted: "c \<in> set (sanitize s) \<Longrightarrow> whitelisted c"
  using set_strip [of "whitelist_sub (ansi_sub s)"]
  by (auto simp: sanitize_def whitelist_sub_def split: if_splits)

text \<open>
  Claim C6.  \<open>sanitize\<close> is idempotent: sanitizing its own output changes nothing.
\<close>

theorem sanitize_idempotent: "sanitize (sanitize x) = sanitize x"
proof (cases "sanitize x = []")
  case True
  then show ?thesis by (simp add: sanitize_def)
next
  case False
  let ?y = "sanitize x"
  have wl: "\<forall>c \<in> set ?y. whitelisted c" using sanitize_whitelisted by blast
  then have "27 \<notin> set ?y" by (auto simp: whitelisted_def)
  then have a: "ansi_sub ?y = ?y" by (rule ansi_sub_no_esc)
  have w: "whitelist_sub ?y = ?y" using wl by (simp add: whitelist_sub_def)
  have "py_strip ?y = ?y"
    using strip_idem [of "whitelist_sub (ansi_sub x)"] False
    by (simp add: sanitize_def split: if_splits)
  with a w False show ?thesis by (simp add: sanitize_def [of ?y])
qed

theorem sanitize_idempotent_witness:
  "sanitize [32, 27, 91, 51, 49, 109, 69, 120, 0, 233, 112, 9, 10] = [69, 120, 112] \<and>
   sanitize (sanitize [32, 27, 91, 51, 49, 109, 69, 120, 0, 233, 112, 9, 10]) = [69, 120, 112]"
  using sanitize_idempotent [of "[32, 27, 91, 51, 49, 109, 69, 120, 0, 233, 112, 9, 10]"]
  by (simp add: sanitize_def py_strip_def whitelist_sub_def whitelisted_def py_isspace_def
      match_ansi_def is_csi_param_def is_csi_final_def)

text \<open>
  Claim C7.  Every code point of \<open>sanitize x\<close> is in 0x20..0x7E or is line feed,
  carriage return or tab; a non-empty result neither starts nor ends with white space;
  the empty string gives the empty string; and so does every input whose characters
  are all outside the whitelist or white space (it cleans to nothing).
\<close>

theorem sanitize_whitelist_trimmed:
  "(\<forall>c \<in> set (sanitize x). (32 \<le> c \<and> c \<le> 126) \<or> c = 10 \<or> c = 13 \<or> c = 9) \<and>
   (sanitize x \<noteq> [] \<longrightarrow>
      \<not> py_isspace (hd (sanitize x)) \<and> \<not> py_isspace (last (sanitize x))) \<and>
   sanitize [] = [] \<and>
   ((\<forall>c \<in> set x. \<not> whitelisted c \<or> py_isspace c) \<longrightarrow> sanitize x = [])"
proof -
  have 1: "\<forall>c \<in> set (sanitize x). (32 \<le> c \<and> c \<le> 126) \<or> c = 10 \<or> c = 13 \<or> c = 9"
    using sanitize_whitelisted [of _ x] by (simp add: whitelisted_def)
  have 2: "sanitize x \<noteq> [] \<longrightarrow>
      \<not> py_isspace (hd (sanitize x)) \<and> \<not> py_isspace (last (sanitize x))"
    using strip_ends [of "whitelist_sub (ansi_sub x)"]
    by (simp add: sanitize_def split: if_splits)
  have 3: "sanitize [] = []" by (simp add: sanitize_def)
  have 4: "(\<forall>c \<in> set x. \<not> whitelisted c \<or> py_isspace c) \<longrightarrow> sanitize x = []"
  proof
    assume h: "\<forall>c \<in> set x. \<not> whitelisted c \<or> py_isspace c"
    have "\<forall>c \<in> set (whitelist_sub (ansi_sub x)). py_isspace c"
      using h set_ansi_sub [of x] by (auto simp: whitelist_sub_def)
    then show "sanitize x = []"
      by (simp add: sanitize_def strip_all_space)
  qed
  from 1 2 3 4 show ?thesis by blast
qed

theorem sanitize_whitelist_trimmed_witness:
  "sanitize [9, 32, 65, 7, 32, 66, 8364, 13, 10] = [65, 32, 66] \<and>
   sanitize [] = [] \<and>
   sanitize [32, 0, 233, 10, 127, 9] = []"
  using sanitize_whitelist_trimmed [of "[9, 32, 65, 7, 32, 66, 8364, 13, 10]"]
    sanitize_whitelist_trimmed [of "[32, 0, 233, 10, 127, 9]"]
  by (simp add: sanitize_def py_strip_def whitelist_sub_def whitelisted_def py_isspace_def
      match_ansi_def)

section \<open>Properties of the handshake state machine and the transport\<close>

lemma deliveries_append: "deliveries (xs @ ys) = deliveries xs @ deliveries ys"
  by (induction xs rule: deliveries.induct) simp_all

lemma set_status_simps [simp]:
  "clock (set_status i s rt) = clock rt"
  "trace (set_status i s rt) = trace rt"
  "length (tasks (set_status i s rt)) = length (tasks rt)"
  by (simp_all add: set_status_def)

lemma set_status_nth:
  "j < length (tasks rt) \<Longrightarrow>
   tasks (set_status i s rt) ! j = (if j = i then (tasks rt ! i)\<lparr>status := s\<rparr> else tasks rt ! j)"
  by (simp add: set_status_def nth_list_update)

lemma cancel_task_simps [simp]:
  "clock (cancel_task i rt) = clock rt"
  "trace (cancel_task i rt) = trace rt"
  "length (tasks (cancel_task i rt)) = length (tasks rt)"
  by (simp_all add: cancel_task_def split: task_status.splits)

lemma cancel_task_status: "i < length (tasks rt) \<Longrightarrow> status (tasks (cancel_task i rt) ! i) \<noteq> Sleeping"
  by (simp add: cancel_task_def set_status_nth split: task_status.splits)

lemma create_task_simps [simp]:
  "clock (snd (create_task c k rt)) = clock rt"
  "trace (snd (create_task c k rt)) = trace rt"
  "tasks (snd (create_task c k rt)) = tasks rt @ [\<lparr>coro = c, wake_at = k, status = Sleeping\<rparr>]"
  "fst (create_task c k rt) = length (tasks rt)"
  by (simp_all add: create_task_def)

lemma emit_simps [simp]:
  "clock (emit e rt) = clock rt"
  "trace (emit e rt) = trace rt @ [e]"
  "tasks (emit e rt) = tasks rt"
  by (simp_all add: emit_def)

lemma notify_listeners_clock [simp]: "clock (notify_listeners s ls rt) = clock rt"
  by (induction s ls rt rule: notify_listeners.induct) simp_all

lemma notify_listeners_tasks: "\<exists>ts. tasks (notify_listeners s ls rt) = tasks rt @ ts"
  by (induction s ls rt rule: notify_listeners.induct) auto

lemma notify_listeners_deliveries [simp]:
  "deliveries (trace (notify_listeners s ls rt)) = deliveries (trace rt)"
  by (induction s ls rt rule: notify_listeners.induct) (simp_all add: deliveries_append)

lemma notify_listeners_keeps:
  "i < length (tasks rt) \<Longrightarrow> tasks (notify_listeners s ls rt) ! i = tasks rt ! i"
  using notify_listeners_tasks [of s ls rt] by (auto simp: nth_append)

lemma cancel_timeout_simps [simp]:
  "state (snd (cancel_timeout w)) = state (snd w)"
  "timeout_task (snd (cancel_timeout w)) = None"
  "listeners (snd (cancel_timeout w)) = listeners (snd w)"
  "trace (fst (cancel_timeout w)) = trace (fst w)"
  "clock (fst (cancel_timeout w)) = clock (fst w)"
  by (simp_all add: cancel_timeout_def split: option.splits)

lemma start_timeout_simps [simp]:
  "state (snd (start_timeout w)) = state (snd w)"
  "trace (fst (start_timeout w)) = trace (fst w)"
  by (simp_all add: start_timeout_def Let_def)

lemma transition_to_state:
  "state (snd (transition_to s w)) =
     (if is_valid_transition (state (snd w)) s then s else state (snd w))"
  by (auto simp: transition_to_def Let_def)

lemma transition_to_deliveries [simp]:
  "deliveries (trace (fst (transition_to s w))) = deliveries (trace (fst w))"
  by (simp add: transition_to_def Let_def)

lemma transition_to_timeout_task:
  "s \<noteq> AUTHENTICATING \<Longrightarrow> timeout_task (snd w) = None \<Longrightarrow> timeout_task (snd (transition_to s w)) = None"
  by (simp add: transition_to_def Let_def)

lemma transition_to_keeps_non_sleeping:
  assumes "i < length (tasks (fst w))" "status (tasks (fst w) ! i) \<noteq> Sleeping"
    "timeout_task (snd w) = None" "s \<noteq> AUTHENTICATING"
  shows "status (tasks (fst (transition_to s w)) ! i) \<noteq> Sleeping"
  using assms
  by (simp add: transition_to_def Let_def cancel_timeout_def notify_listeners_keeps)

text \<open>
  Claim C2, as the claim states it, fails: from \<open>AUTHENTICATING\<close> the guard
  \<open>_is_valid_transition\<close> refuses the edge to \<open>LOCKED\<close>, and \<open>reset\<close> leaves the state
  where it was (the timeout is cancelled all the same).
\<close>

theorem reset_locked_counterexample:
  "state (snd (reset
     (\<lparr>clock = 0, tasks = [\<lparr>coro = HandshakeTimeout, wake_at = 15, status = Sleeping\<rparr>], trace = []\<rparr>,
      \<lparr>state = AUTHENTICATING, timeout_duration = 15, timeout_task = Some 0, listeners = []\<rparr>)))
   = AUTHENTICATING"
  by (simp add: reset_def transition_to_def cancel_timeout_def)

text \<open>
  Claim C2, amended.  From every state other than \<open>AUTHENTICATING\<close>, \<open>reset\<close> ends in
  \<open>LOCKED\<close>; from every state, \<open>AUTHENTICATING\<close> too, the handle of the timeout task
  is cleared and the task it named is no longer pending.
\<close>

theorem reset_locks_and_cancels:
  "(state h \<noteq> AUTHENTICATING \<longrightarrow> state (snd (reset (rt, h))) = LOCKED) \<and>
   timeout_task (snd (reset (rt, h))) = None \<and>
   (\<forall>i. timeout_task h = Some i \<and> i < length (tasks rt) \<longrightarrow>
        status (tasks (fst (reset (rt, h))) ! i) \<noteq> Sleeping)"
proof -
  have s: "state h \<noteq> AUTHENTICATING \<longrightarrow> state (snd (reset (rt, h))) = LOCKED"
    by (cases "state h") (simp_all add: reset_def transition_to_state)
  have t: "timeout_task (snd (reset (rt, h))) = None"
    by (simp add: reset_def transition_to_timeout_task)
  have c: "status (tasks (fst (reset (rt, h))) ! i) \<noteq> Sleeping"
    if "timeout_task h = Some i" "i < length (tasks rt)" for i
  proof -
    have "status (tasks (fst (cancel_timeout (rt, h))) ! i) \<noteq> Sleeping"
      using that by (simp add: cancel_timeout_def cancel_task_status)
    moreover have "i < length (tasks (fst (cancel_timeout (rt, h))))"
      using that by (simp add: cancel_timeout_def)
    ultimately show ?thesis
      unfolding reset_def
      by (intro transition_to_keeps_non_sleeping) simp_all
  qed
  from s t c show ?thesis by blast
qed

theorem reset_locks_and_cancels_witness:
  "state (snd (reset
     (\<lparr>clock = 3, tasks = [\<lparr>coro = HandshakeTimeout, wake_at = 15, status = Sleeping\<rparr>], trace = []\<rparr>,
      \<lparr>state = FAILED, timeout_duration = 15, timeout_task = Some 0, listeners = [AsyncListener 0]\<rparr>)))
   = LOCKED \<and>
   status (tasks (fst (reset
     (\<lparr>clock = 3, tasks = [\<lparr>coro = HandshakeTimeout, wake_at = 15, status = Sleeping\<rparr>], trace = []\<rparr>,
      \<lparr>state = FAILED, timeout_duration = 15, timeout_task = Some 0, listeners = [AsyncListener 0]\<rparr>))) ! 0)
   = Cancelled"
  using reset_locks_and_cancels
    [of "\<lparr>state = FAILED, timeout_duration = 15, timeout_task = Some 0, listeners = [AsyncListener 0]\<rparr>"
        "\<lparr>clock = 3, tasks = [\<lparr>coro = HandshakeTimeout, wake_at = 15, status = Sleeping\<rparr>], trace = []\<rparr>"]
  by (simp add: reset_def transition_to_def cancel_timeout_def cancel_task_def set_status_def create_task_def)

lemma reset_idle_timer_simps [simp]:
  "trace (fst (reset_idle_timer cfg w)) = trace (fst w)"
  "clock (fst (reset_idle_timer cfg w)) = clock (fst w)"
  "handshake (snd (reset_idle_timer cfg w)) = handshake (snd w)"
  "ws (snd (reset_idle_timer cfg w)) = ws (snd w)"
  "message_listeners (snd (reset_idle_timer cfg w)) = message_listeners (snd w)"
  by (simp_all add: reset_idle_timer_def Let_def split: option.splits)

text \<open>
  Claim C1.  \<open>send_audio\<close> hands the chunk to the socket as a binary frame if and
  only if the handshake state is \<open>AUTHENTICATED\<close> and the socket handle is present;
  otherwise it returns with the world unchanged: nothing is sent, nothing is raised.
\<close>

theorem send_audio_gate:
  "(trace (fst (send_audio cfg c (rt, t))) = trace rt @ [WsSend (BinaryFrame c)])
     = (state (handshake t) = AUTHENTICATED \<and> ws t \<noteq> None) \<and>
   (\<not> (state (handshake t) = AUTHENTICATED \<and> ws t \<noteq> None) \<longrightarrow>
      send_audio cfg c (rt, t) = (rt, t))"
  by (auto simp: send_audio_def can_send_audio_def Let_def)


theorem send_audio_gate_witness:
  "trace (fst (send_audio cfg0 [1, 2] world_authenticated)) = [WsSend (BinaryFrame [1, 2])] \<and>
   send_audio cfg0 [1, 2] world_init = world_init"
  using send_audio_gate [of cfg0 "[1, 2]" "fst world_authenticated" "snd world_authenticated"]
    send_audio_gate [of cfg0 "[1, 2]" "fst world_init" "snd world_init"]
  by (simp add: world_authenticated_def world_init_def runtime_init_def transport_init_def
      handshake_init_def)


lemma on_handshake_simps [simp]:
  "ws (snd (on_handshake f w)) = ws (snd w)"
  "message_listeners (snd (on_handshake f w)) = message_listeners (snd w)"
  "handshake (snd (on_handshake f w)) = snd (f (fst w, handshake (snd w)))"
  "fst (on_handshake f w) = fst (f (fst w, handshake (snd w)))"
  by (simp_all add: on_handshake_def Let_def)

lemma deliver_trace: "trace (deliver msg cbs rt) = trace rt @ map (\<lambda>cb. Delivered cb msg) cbs"
  by (induction cbs arbitrary: rt) simp_all

lemma deliveries_map_Delivered: "deliveries (map (\<lambda>cb. Delivered cb msg) cbs) = map (\<lambda>cb. (cb, msg)) cbs"
  by (induction cbs) simp_all

lemma notify_message_listeners_simps [simp]:
  "handshake (snd (notify_message_listeners msg w)) = handshake (snd w)"
  "deliveries (trace (fst (notify_message_listeners msg w)))
     = deliveries (trace (fst w)) @ map (\<lambda>cb. (cb, msg)) (message_listeners (snd w))"
  by (simp_all add: notify_message_listeners_def deliver_trace deliveries_append deliveries_map_Delivered)

lemma py_eq_int_distinct: "py_eq_int c a \<Longrightarrow> a \<noteq> b \<Longrightarrow> \<not> py_eq_int c b"
  by (cases c) (auto split: if_splits)


text \<open>
  Claim C4, as the claim states it, fails: an \<open>error\<close> frame with code 401 that arrives
  in state \<open>AUTHENTICATED\<close> leaves the state \<open>AUTHENTICATED\<close>, since the guard has no
  edge from there to \<open>FAILED\<close>.
\<close>

theorem error_401_counterexample:
  "state (handshake (snd (handle_raw_message cfg0 loads_example (StrMessage text401) world_authenticated)))
     = AUTHENTICATED"
  by (simp add: handle_raw_message_def loads_example_def err401_def dispatch_def dict_get_def
      code_points_def Let_def transition_to_state world_authenticated_def
      notify_message_listeners_def)

text \<open>
  Claim C4, amended.  For a text frame that parses to an object with event \<open>error\<close>:
  with code 401 or 403 the state becomes \<open>FAILED\<close> when it was \<open>LOCKED\<close>,
  \<open>AUTHENTICATING\<close> or \<open>FAILED\<close>, and stays what it was when it was \<open>AUTHENTICATED\<close>
  or \<open>BANNED\<close>; with code 1008 it becomes \<open>BANNED\<close>; and whatever the code, the message
  is delivered to every registered message listener, in registration order.
\<close>

theorem error_frame_handling:
  assumes "loads s = Some (JObj kv)"
    and "dict_get kv (code_points ''event'') = JStr (code_points ''error'')"
  shows
    "((py_eq_int (dict_get kv (code_points ''code'')) 401 \<or>
       py_eq_int (dict_get kv (code_points ''code'')) 403) \<longrightarrow>
        state (handshake (snd (handle_raw_message cfg loads (StrMessage s) (rt, t)))) =
          (if state (handshake t) \<in> {LOCKED, AUTHENTICATING, FAILED} then FAILED
           else state (handshake t))) \<and>
     (py_eq_int (dict_get kv (code_points ''code'')) 1008 \<longrightarrow>
        state (handshake (snd (handle_raw_message cfg loads (StrMessage s) (rt, t)))) = BANNED) \<and>
     deliveries (trace (fst (handle_raw_message cfg loads (StrMessage s) (rt, t)))) =
       deliveries (trace rt) @ map (\<lambda>cb. (cb, JObj kv)) (message_listeners t)"
proof -
  let ?code = "dict_get kv (code_points ''code'')"
  let ?w = "handle_raw_message cfg loads (StrMessage s) (rt, t)"
  have ne: "JStr (code_points ''error'') \<noteq> JStr (code_points ''hello'')"
    "JStr (code_points ''error'') \<noteq> JStr (code_points ''authenticated'')"
    by (simp_all add: code_points_def)
  have a: "state (handshake (snd ?w)) =
          (if state (handshake t) \<in> {LOCKED, AUTHENTICATING, FAILED} then FAILED
           else state (handshake t))"
    if c: "py_eq_int ?code 401 \<or> py_eq_int ?code 403"
  proof -
    from c have "\<not> py_eq_int ?code 1008"
      using py_eq_int_distinct [of ?code 401 1008] py_eq_int_distinct [of ?code 403 1008] by auto
    with c assms ne show ?thesis
      by (cases "state (handshake t)")
         (simp_all add: handle_raw_message_def dispatch_def Let_def transition_to_state)
  qed
  have b: "state (handshake (snd ?w)) = BANNED" if c: "py_eq_int ?code 1008"
    using c assms ne
    by (simp add: handle_raw_message_def dispatch_def Let_def transition_to_state)
  have d: "deliveries (trace (fst ?w)) =
       deliveries (trace rt) @ map (\<lambda>cb. (cb, JObj kv)) (message_listeners t)"
    using assms ne
    by (simp add: handle_raw_message_def dispatch_def Let_def)
  from a b d show ?thesis by blast
qed

theorem error_frame_handling_witness:
  "state (handshake (snd (handle_raw_message cfg0 loads_example (StrMessage text401)
      (fst world_authenticated,
       (snd world_authenticated)\<lparr>handshake := (handshake (snd world_authenticated))\<lparr>state := AUTHENTICATING\<rparr>\<rparr>))))
     = FAILED \<and>
   deliveries (trace (fst (handle_raw_message cfg0 loads_example (StrMessage text401)
      (fst world_authenticated,
       (snd world_authenticated)\<lparr>handshake := (handshake (snd world_authenticated))\<lparr>state := AUTHENTICATING\<rparr>\<rparr>))))
     = [(0, err401), (1, err401)]"
  using error_frame_handling [of loads_example text401
      "[(code_points ''event'', JStr (code_points ''error'')), (code_points ''code'', JInt 401)]"
      cfg0 "fst world_authenticated"
      "(snd world_authenticated)\<lparr>handshake := (handshake (snd world_authenticated))\<lparr>state := AUTHENTICATING\<rparr>\<rparr>"]
  by (simp add: loads_example_def err401_def dict_get_def code_points_def world_authenticated_def)

subsection \<open>The idle timer along a run\<close>

text \<open>
  \<open>ext rt rt'\<close>: from \<open>rt\<close> to \<open>rt'\<close> the clock stands still, no frame is sent, tasks
  are only added or taken out of their sleep, and no idle timer is added.
\<close>

definition ext :: "runtime \<Rightarrow> runtime \<Rightarrow> bool" where
  "ext rt rt' =
     (clock rt' = clock rt \<and> sends rt' = sends rt \<and> length (tasks rt) \<le> length (tasks rt') \<and>
      (\<forall>i < length (tasks rt). coro (tasks rt' ! i) = coro (tasks rt ! i) \<and>
          wake_at (tasks rt' ! i) = wake_at (tasks rt ! i) \<and>
          (status (tasks rt' ! i) = Sleeping \<longrightarrow> status (tasks rt ! i) = Sleeping)) \<and>
      (\<forall>i. length (tasks rt) \<le> i \<and> i < length (tasks rt') \<longrightarrow> coro (tasks rt' ! i) \<noteq> IdleTimeout))"

lemma ext_refl [simp]: "ext rt rt"
  by (auto simp: ext_def)

lemma ext_trans: "ext a b \<Longrightarrow> ext b c \<Longrightarrow> ext a c"
  unfolding ext_def
  by (smt (verit, best) le_trans not_le_imp_less order.strict_trans2)

lemma ext_set_status: "s \<noteq> Sleeping \<Longrightarrow> ext rt (set_status i s rt)"
  by (cases "i < length (tasks rt)") (auto simp: ext_def set_status_def sends_def nth_list_update)

lemma ext_cancel: "ext rt (cancel_task i rt)"
  by (simp add: cancel_task_def ext_set_status split: task_status.splits)

lemma ext_begin: "ext rt (begin_task i rt)"
  by (simp add: begin_task_def ext_set_status)

lemma ext_end: "ext rt (end_task i rt)"
  by (simp add: end_task_def ext_set_status split: task_status.splits)

lemma ext_create: "c \<noteq> IdleTimeout \<Longrightarrow> ext rt (snd (create_task c k rt))"
  by (auto simp: ext_def sends_def nth_append)

lemma ext_emit: "\<not> is_send e \<Longrightarrow> ext rt (emit e rt)"
  by (auto simp: ext_def sends_def)

lemma ext_notify: "ext rt (notify_listeners s ls rt)"
proof (induction s ls rt rule: notify_listeners.induct)
  case (1 s rt) show ?case by simp
next
  case (2 s l ls rt)
  have "ext rt (snd (create_task (ListenerCall l s) (clock rt) rt))" by (rule ext_create) simp
  with 2 show ?case by (auto intro: ext_trans)
next
  case (3 s l ls rt)
  have "ext rt (emit (Notified l s) rt)" by (rule ext_emit) simp
  with 3 show ?case by (auto intro: ext_trans)
qed

lemma ext_cancel_timeout: "ext (fst w) (fst (cancel_timeout w))"
  by (simp add: cancel_timeout_def ext_cancel split: option.splits)

lemma ext_start_timeout: "ext (fst w) (fst (start_timeout w))"
proof -
  have "ext (fst (cancel_timeout w)) (fst (start_timeout w))"
    by (simp add: start_timeout_def Let_def ext_create)
  with ext_cancel_timeout [of w] show ?thesis by (rule ext_trans)
qed

lemma ext_transition_to: "ext (fst w) (fst (transition_to s w))"
proof -
  let ?rt = "notify_listeners s (listeners (snd w)) (fst w)"
  have n: "ext (fst w) ?rt" by (rule ext_notify)
  have a: "ext (fst w) (fst (start_timeout (?rt, h)))" for h
    using n ext_start_timeout [of "(?rt, h)"] by (auto intro: ext_trans)
  have b: "ext (fst w) (fst (cancel_timeout (?rt, h)))" for h
    using n ext_cancel_timeout [of "(?rt, h)"] by (auto intro: ext_trans)
  show ?thesis
    using a b by (auto simp: transition_to_def Let_def simp del: is_valid_transition.simps)
qed

lemma ext_reset: "ext (fst w) (fst (reset w))"
  unfolding reset_def
  using ext_cancel_timeout [of w] ext_transition_to [of "cancel_timeout w" LOCKED]
  by (rule ext_trans)

lemma armed_ext: "ext rt rt' \<Longrightarrow> armed rt' i \<Longrightarrow> armed rt i"
  unfolding ext_def armed_def
  by (metis not_le_imp_less)

lemma armed_ext_wake: "ext rt rt' \<Longrightarrow> armed rt' i \<Longrightarrow> wake_at (tasks rt' ! i) = wake_at (tasks rt ! i)"
  using armed_ext [of rt rt' i] by (simp add: ext_def armed_def)

text \<open>\<open>keeps\<close>: moreover every armed idle timer stays armed.\<close>

definition keeps :: "runtime \<Rightarrow> runtime \<Rightarrow> bool" where
  "keeps rt rt' = (ext rt rt' \<and> (\<forall>i. armed rt i \<longrightarrow> armed rt' i))"

lemma keeps_refl [simp]: "keeps rt rt"
  by (simp add: keeps_def)

lemma keeps_trans: "keeps a b \<Longrightarrow> keeps b c \<Longrightarrow> keeps a c"
  by (auto simp: keeps_def intro: ext_trans)

lemma keeps_ext: "keeps a b \<Longrightarrow> ext a b"
  by (simp add: keeps_def)

lemma keeps_armed: "keeps a b \<Longrightarrow> armed b i = armed a i"
  by (auto simp: keeps_def dest: armed_ext)

lemma keeps_create: "c \<noteq> IdleTimeout \<Longrightarrow> keeps rt (snd (create_task c k rt))"
  by (auto simp: keeps_def ext_create armed_def nth_append)

lemma keeps_emit: "\<not> is_send e \<Longrightarrow> keeps rt (emit e rt)"
  by (auto simp: keeps_def ext_emit armed_def)

lemma keeps_cancel:
  "\<not> armed rt h \<Longrightarrow> keeps rt (cancel_task h rt)"
proof -
  assume n: "\<not> armed rt h"
  have "armed (cancel_task h rt) i" if "armed rt i" for i
    using that n
    by (cases "h < length (tasks rt)")
       (auto simp: armed_def cancel_task_def set_status_def nth_list_update split: task_status.splits)
  then show ?thesis by (simp add: keeps_def ext_cancel)
qed

lemma keeps_notify: "keeps rt (notify_listeners s ls rt)"
proof (induction s ls rt rule: notify_listeners.induct)
  case (1 s rt) show ?case by simp
next
  case (2 s l ls rt)
  have "keeps rt (snd (create_task (ListenerCall l s) (clock rt) rt))" by (rule keeps_create) simp
  with 2 show ?case by (auto intro: keeps_trans)
next
  case (3 s l ls rt)
  have "keeps rt (emit (Notified l s) rt)" by (rule keeps_emit) simp
  with 3 show ?case by (auto intro: keeps_trans)
qed

text \<open>The handle \<open>_timeout_task\<close>, when set, names a handshake-timeout task.\<close>

definition timeout_handle_ok :: "runtime \<times> HandshakeStateMachine \<Rightarrow> bool" where
  "timeout_handle_ok w = (\<forall>h. timeout_task (snd w) = Some h \<longrightarrow>
             h < length (tasks (fst w)) \<and> coro (tasks (fst w) ! h) = HandshakeTimeout)"

lemma Vh_not_armed: "timeout_handle_ok w \<Longrightarrow> timeout_task (snd w) = Some h \<Longrightarrow> \<not> armed (fst w) h"
  by (simp add: timeout_handle_ok_def armed_def)

lemma Vh_ext: "timeout_handle_ok (rt, h) \<Longrightarrow> ext rt rt' \<Longrightarrow> timeout_task h' = timeout_task h \<Longrightarrow> timeout_handle_ok (rt', h')"
  unfolding timeout_handle_ok_def ext_def by (auto simp: less_le_trans)

lemma Vh_None: "timeout_task (snd w) = None \<Longrightarrow> timeout_handle_ok w"
  by (simp add: timeout_handle_ok_def)

lemma Vh_cancel_timeout: "timeout_handle_ok (cancel_timeout w)"
  by (simp add: Vh_None)

lemma Vh_start_timeout: "timeout_handle_ok (start_timeout w)"
  by (simp add: timeout_handle_ok_def start_timeout_def Let_def)

lemma Vh_transition_to: "timeout_handle_ok w \<Longrightarrow> timeout_handle_ok (transition_to s w)"
  by (simp add: transition_to_def Let_def Vh_cancel_timeout Vh_start_timeout
      del: is_valid_transition.simps)

lemma Vh_reset: "timeout_handle_ok (reset w)"
  by (simp add: reset_def Vh_transition_to Vh_cancel_timeout)

lemma keeps_cancel_timeout: "timeout_handle_ok w \<Longrightarrow> keeps (fst w) (fst (cancel_timeout w))"
  by (auto simp: cancel_timeout_def split: option.splits intro: keeps_cancel dest: Vh_not_armed)

lemma keeps_start_timeout: "timeout_handle_ok w \<Longrightarrow> keeps (fst w) (fst (start_timeout w))"
proof -
  assume v: "timeout_handle_ok w"
  have "keeps (fst (cancel_timeout w)) (fst (start_timeout w))"
    by (simp add: start_timeout_def Let_def keeps_create)
  with keeps_cancel_timeout [OF v] show ?thesis by (rule keeps_trans)
qed

lemma keeps_transition_to: "timeout_handle_ok w \<Longrightarrow> keeps (fst w) (fst (transition_to s w))"
proof -
  assume v: "timeout_handle_ok w"
  let ?rt = "notify_listeners s (listeners (snd w)) (fst w)"
  have n: "keeps (fst w) ?rt" by (rule keeps_notify)
  have vn: "timeout_handle_ok (?rt, (snd w)\<lparr>state := x\<rparr>)" for x
    using Vh_ext [of "fst w" "snd w" ?rt "(snd w)\<lparr>state := x\<rparr>"] v n
    by (simp add: keeps_ext)
  have a: "keeps (fst w) (fst (start_timeout (?rt, (snd w)\<lparr>state := x\<rparr>)))" for x
    using n keeps_start_timeout [OF vn [of x]] by (auto intro: keeps_trans)
  have b: "keeps (fst w) (fst (cancel_timeout (?rt, (snd w)\<lparr>state := x\<rparr>)))" for x
    using n keeps_cancel_timeout [OF vn [of x]] by (auto intro: keeps_trans)
  show ?thesis
    using a b by (auto simp: transition_to_def Let_def simp del: is_valid_transition.simps)
qed

text \<open>
  \<open>quiet w w'\<close>: a step that does not re-arm: \<open>ext\<close> on the runtime, and the handle
  \<open>_idle_timer\<close> is as before or cleared with its task no longer armed.
\<close>

definition quiet :: "world \<Rightarrow> world \<Rightarrow> bool" where
  "quiet w w' =
     (ext (fst w) (fst w') \<and>
      (idle_timer (snd w') = idle_timer (snd w) \<or>
       (idle_timer (snd w') = None \<and> (\<forall>i. idle_timer (snd w) = Some i \<longrightarrow> \<not> armed (fst w') i))))"

lemma quiet_refl [simp]: "quiet w w"
  by (simp add: quiet_def)

lemma quiet_trans: "quiet a b \<Longrightarrow> quiet b c \<Longrightarrow> quiet a c"
  unfolding quiet_def
  by (metis armed_ext ext_trans)

lemma quietI: "ext (fst w) (fst w') \<Longrightarrow> idle_timer (snd w') = idle_timer (snd w) \<Longrightarrow> quiet w w'"
  by (simp add: quiet_def)

definition keepsW :: "world \<Rightarrow> world \<Rightarrow> bool" where
  "keepsW w w' = (keeps (fst w) (fst w') \<and> idle_timer (snd w') = idle_timer (snd w))"

lemma keepsW_refl [simp]: "keepsW w w"
  by (simp add: keepsW_def)

lemma keepsW_trans: "keepsW a b \<Longrightarrow> keepsW b c \<Longrightarrow> keepsW a c"
  by (auto simp: keepsW_def intro: keeps_trans)

lemma keepsW_quiet: "keepsW a b \<Longrightarrow> quiet a b"
  by (simp add: keepsW_def quiet_def keeps_ext)

definition handles_ok :: "world \<Rightarrow> bool" where
  "handles_ok w = timeout_handle_ok (fst w, handshake (snd w))"

definition single_armed :: "world \<Rightarrow> bool" where
  "single_armed w = (\<forall>i. armed (fst w) i \<longrightarrow> idle_timer (snd w) = Some i)"

definition deadline_inv :: "config \<Rightarrow> world \<times> nat option \<Rightarrow> bool" where
  "deadline_inv cfg s =
     (\<forall>i. armed (fst (fst s)) i \<longrightarrow>
        idle_timer (snd (fst s)) = Some i \<and>
        (\<exists>c. snd s = Some c \<and> c \<le> clock (fst (fst s)) \<and>
             wake_at (tasks (fst (fst s)) ! i) = c + nat (IDLE_TIMEOUT cfg)))"

lemma J_J': "deadline_inv cfg (w, la) \<Longrightarrow> single_armed w"
  by (simp add: deadline_inv_def single_armed_def)

lemma J_quiet: "deadline_inv cfg (w, la) \<Longrightarrow> quiet w w' \<Longrightarrow> deadline_inv cfg (w', la)"
  unfolding deadline_inv_def quiet_def
  by (smt (verit) armed_ext armed_ext_wake ext_def fst_conv snd_conv)

lemma J'_quiet: "single_armed w \<Longrightarrow> quiet w w' \<Longrightarrow> single_armed w'"
  unfolding single_armed_def quiet_def
  by (metis armed_ext)

text \<open>
  \<open>rearmed cfg w w'\<close>: in \<open>w'\<close> exactly one idle timer is armed, a task created since
  \<open>w\<close>, held by \<open>_idle_timer\<close>, due \<open>IDLE_TIMEOUT\<close> after the clock of \<open>w\<close>.
\<close>

definition rearmed :: "config \<Rightarrow> world \<Rightarrow> world \<Rightarrow> bool" where
  "rearmed cfg w w' =
     (clock (fst w') = clock (fst w) \<and>
      (\<exists>n. length (tasks (fst w)) \<le> n \<and> idle_timer (snd w') = Some n \<and>
           (\<forall>i. armed (fst w') i = (i = n)) \<and>
           wake_at (tasks (fst w') ! n) = clock (fst w) + nat (IDLE_TIMEOUT cfg)))"

lemma rearmed_reset_idle_timer: "single_armed w \<Longrightarrow> rearmed cfg w (reset_idle_timer cfg w)"
proof -
  assume j: "single_armed w"
  define rt1 where "rt1 = (case idle_timer (snd w) of Some i \<Rightarrow> cancel_task i (fst w) | None \<Rightarrow> fst w)"
  have e: "ext (fst w) rt1"
    by (simp add: rt1_def ext_cancel split: option.splits)
  have none: "\<not> armed rt1 i" for i
  proof
    assume a: "armed rt1 i"
    with e have "armed (fst w) i" by (rule armed_ext)
    with j have h: "idle_timer (snd w) = Some i" by (simp add: single_armed_def)
    then have "rt1 = cancel_task i (fst w)" by (simp add: rt1_def)
    with a show False
      by (auto simp: armed_def cancel_task_def set_status_def split: if_splits task_status.splits)
  qed
  have len: "length (tasks rt1) = length (tasks (fst w))"
    by (simp add: rt1_def split: option.splits)
  have clk: "clock rt1 = clock (fst w)"
    by (simp add: rt1_def split: option.splits)
  have r: "reset_idle_timer cfg w =
      (snd (create_task IdleTimeout (clock rt1 + nat (IDLE_TIMEOUT cfg)) rt1),
       (snd w)\<lparr>idle_timer := Some (length (tasks rt1))\<rparr>)"
    by (simp add: reset_idle_timer_def Let_def rt1_def)
  have arm: "armed (snd (create_task IdleTimeout k rt1)) i = (i = length (tasks rt1))" for i k
    using none [of i] by (auto simp: armed_def nth_append)
  show ?thesis
    unfolding rearmed_def r
    by (rule conjI, simp add: clk, rule exI [of _ "length (tasks rt1)"])
       (simp add: arm len clk nth_append)
qed

lemma rearmed_keepsW: "rearmed cfg w w1 \<Longrightarrow> keepsW w1 w2 \<Longrightarrow> rearmed cfg w w2"
proof -
  assume r: "rearmed cfg w w1" and k: "keepsW w1 w2"
  from r obtain n where n: "length (tasks (fst w)) \<le> n" "idle_timer (snd w1) = Some n"
    "\<forall>i. armed (fst w1) i = (i = n)"
    "wake_at (tasks (fst w1) ! n) = clock (fst w) + nat (IDLE_TIMEOUT cfg)"
    and c: "clock (fst w1) = clock (fst w)"
    by (auto simp: rearmed_def)
  from k have e: "ext (fst w1) (fst w2)" and ka: "\<And>i. armed (fst w2) i = armed (fst w1) i"
    and id: "idle_timer (snd w2) = idle_timer (snd w1)"
    by (simp_all add: keepsW_def keeps_ext keeps_armed)
  have "armed (fst w2) n" using ka n(3) by simp
  then have "wake_at (tasks (fst w2) ! n) = wake_at (tasks (fst w1) ! n)"
    using e by (rule armed_ext_wake [rotated])
  moreover have "clock (fst w2) = clock (fst w)" using e c by (simp add: ext_def)
  ultimately show ?thesis
    unfolding rearmed_def using n id ka by auto
qed

lemma rearmed_after_quiet: "quiet w w0 \<Longrightarrow> rearmed cfg w0 w1 \<Longrightarrow> rearmed cfg w w1"
  unfolding rearmed_def quiet_def ext_def
  by (metis le_trans)

lemma rearmed_J: "rearmed cfg w w' \<Longrightarrow> deadline_inv cfg (w', Some (clock (fst w)))"
  by (auto simp: rearmed_def deadline_inv_def)

lemma V_on_handshake_quiet:
  assumes "\<And>x. ext (fst x) (fst (f x))"
  shows "quiet w (on_handshake f w)"
  using assms [of "(fst w, handshake (snd w))"]
  by (simp add: quiet_def on_handshake_def Let_def)

lemma keepsW_on_handshake_transition:
  "handles_ok w \<Longrightarrow> keepsW w (on_handshake (transition_to s) w)"
  using keeps_transition_to [of "(fst w, handshake (snd w))" s]
  by (simp add: keepsW_def handles_ok_def on_handshake_def Let_def)

lemma V_on_handshake_transition: "handles_ok w \<Longrightarrow> handles_ok (on_handshake (transition_to s) w)"
  using Vh_transition_to [of "(fst w, handshake (snd w))" s]
  by (simp add: handles_ok_def on_handshake_def Let_def)

lemma V_on_handshake_reset: "handles_ok (on_handshake reset w)"
  using Vh_reset [of "(fst w, handshake (snd w))"]
  by (simp add: handles_ok_def on_handshake_def Let_def)

lemma V_ext: "handles_ok w \<Longrightarrow> ext (fst w) (fst w') \<Longrightarrow> handshake (snd w') = handshake (snd w) \<Longrightarrow> handles_ok w'"
  unfolding handles_ok_def using Vh_ext [of "fst w" "handshake (snd w)" "fst w'" "handshake (snd w')"]
  by simp

lemma sends_simps [simp]:
  "sends (emit e rt) = (if is_send e then Suc (sends rt) else sends rt)"
  "sends (fst (reset_idle_timer cfg w)) = sends (fst w)"
  by (simp_all add: sends_def)

lemma quiet_sends: "quiet w w' \<Longrightarrow> sends (fst w') = sends (fst w)"
  by (simp add: quiet_def ext_def)

lemma keepsW_sends: "keepsW w w' \<Longrightarrow> sends (fst w') = sends (fst w)"
  by (simp add: keepsW_quiet quiet_sends)

lemma quiet_on_handshake_reset: "quiet w (on_handshake reset w)"
  by (rule V_on_handshake_quiet) (rule ext_reset)

lemma quiet_on_handshake_transition: "quiet w (on_handshake (transition_to s) w)"
  by (rule V_on_handshake_quiet) (rule ext_transition_to)

lemma not_armed_cancel: "\<not> armed (cancel_task i rt) i"
  by (auto simp: armed_def cancel_task_def set_status_def split: task_status.splits)

lemma quiet_disconnect: "quiet w (snd (disconnect me sus r w))"
proof -
  define w1 where "w1 = on_handshake reset w"
  define w2 where "w2 = (case idle_timer (snd w1) of
                  Some i \<Rightarrow> (cancel_task i (fst w1), (snd w1)\<lparr>idle_timer := None\<rparr>)
                | None \<Rightarrow> w1)"
  define w3 where "w3 = (case receive_task (snd w2) of
                  Some i \<Rightarrow> (cancel_task i (fst w2), (snd w2)\<lparr>receive_task := None\<rparr>)
                | None \<Rightarrow> w2)"
  define w4 where "w4 = snd (case ws (snd w3) of
            Some c \<Rightarrow>
              (let rt4 = emit (WsClose 1000 r) (fst w3) in
               if sus \<and> cancel_pending me rt4 then (CancelledError, (rt4, snd w3))
               else (Completed, (rt4, (snd w3)\<lparr>ws := None\<rparr>)))
          | None \<Rightarrow> (Completed, w3))"
  have d: "snd (disconnect me sus r w) = w4"
    unfolding disconnect_def Let_def w4_def w3_def w2_def w1_def by (rule refl)
  have q1: "quiet w w1" unfolding w1_def by (rule quiet_on_handshake_reset)
  have q2: "quiet w1 w2"
    by (auto simp: w2_def quiet_def ext_cancel not_armed_cancel split: option.splits)
  have q3: "quiet w2 w3"
    by (auto simp: w3_def quiet_def ext_cancel split: option.splits)
  have q4: "quiet w3 w4"
    by (auto simp: w4_def quiet_def ext_emit Let_def split: option.splits)
  from q1 q2 q3 q4 show ?thesis
    unfolding d by (blast intro: quiet_trans)
qed

lemma V_disconnect: "handles_ok (snd (disconnect me sus r w))"
proof -
  have "timeout_task (handshake (snd (snd (disconnect me sus r w)))) = None"
    by (simp add: disconnect_def Let_def on_handshake_def reset_def transition_to_timeout_task
        split: option.splits)
  then show ?thesis by (simp add: handles_ok_def timeout_handle_ok_def)
qed

lemma rearmed_emit: "rearmed cfg w w1 \<Longrightarrow> rearmed cfg w (emit e (fst w1), snd w1)"
  by (simp add: rearmed_def armed_def)

lemma V_reset_idle_timer: "handles_ok w \<Longrightarrow> handles_ok (reset_idle_timer cfg w)"
  by (cases "idle_timer (snd w)")
     (auto simp: handles_ok_def timeout_handle_ok_def reset_idle_timer_def Let_def nth_append cancel_task_def
        set_status_def nth_list_update split: task_status.splits)

lemma V_emit: "handles_ok w1 \<Longrightarrow> handles_ok (emit e (fst w1), snd w1)"
  by (simp add: handles_ok_def timeout_handle_ok_def)


lemma send_audio_cases:
  "single_armed w \<Longrightarrow>
   (send_audio cfg c w = w \<and> \<not> (can_send_audio (handshake (snd w)) \<and> ws (snd w) \<noteq> None)) \<or>
   (rearmed cfg w (send_audio cfg c w) \<and> sends (fst (send_audio cfg c w)) = Suc (sends (fst w)))"
  by (auto simp: send_audio_def Let_def intro!: rearmed_emit rearmed_reset_idle_timer)

lemma send_json_cases:
  "single_armed w \<Longrightarrow>
   (send_json cfg d w = w \<and> ws (snd w) = None) \<or>
   (rearmed cfg w (send_json cfg d w) \<and> sends (fst (send_json cfg d w)) = Suc (sends (fst w)))"
  by (auto simp: send_json_def Let_def intro!: rearmed_emit rearmed_reset_idle_timer)

lemma V_send_audio: "handles_ok w \<Longrightarrow> handles_ok (send_audio cfg c w)"
  by (simp add: send_audio_def Let_def V_emit V_reset_idle_timer)

lemma V_send_json: "handles_ok w \<Longrightarrow> handles_ok (send_json cfg d w)"
  by (simp add: send_json_def Let_def V_emit V_reset_idle_timer)


lemma keeps_deliver: "keeps rt (deliver msg cbs rt)"
proof (induction cbs arbitrary: rt)
  case Nil show ?case by simp
next
  case (Cons cb cbs)
  have "keeps rt (emit (Delivered cb msg) rt)" by (rule keeps_emit) simp
  with Cons [of "emit (Delivered cb msg) rt"] show ?case by (auto intro: keeps_trans)
qed

lemma keepsW_notify_message_listeners: "keepsW w (notify_message_listeners msg w)"
  by (simp add: keepsW_def notify_message_listeners_def keeps_deliver)

lemma V_notify_message_listeners: "handles_ok w \<Longrightarrow> handles_ok (notify_message_listeners msg w)"
  by (rule V_ext [of w]) (simp_all add: notify_message_listeners_def keeps_deliver keeps_ext)

lemma dispatch_keeps: "handles_ok w \<Longrightarrow> keepsW w (dispatch kv w) \<and> handles_ok (dispatch kv w)"
proof -
  assume v: "handles_ok w"
  have t: "keepsW w (on_handshake (transition_to s) w) \<and> handles_ok (on_handshake (transition_to s) w)" for s
    using v by (simp add: keepsW_on_handshake_transition V_on_handshake_transition)
  have t2: "keepsW w (on_handshake (transition_to s2) (on_handshake (transition_to s) w)) \<and>
            handles_ok (on_handshake (transition_to s2) (on_handshake (transition_to s) w))" for s s2
    using t [of s] keepsW_on_handshake_transition [of "on_handshake (transition_to s) w" s2]
      V_on_handshake_transition [of "on_handshake (transition_to s) w" s2]
    by (blast intro: keepsW_trans)
  have n: "keepsW w (notify_message_listeners m x) \<and> handles_ok (notify_message_listeners m x)"
    if "keepsW w x \<and> handles_ok x" for x m
    using that keepsW_notify_message_listeners [of x m] V_notify_message_listeners [of x m]
    by (blast intro: keepsW_trans)
  show ?thesis
    unfolding dispatch_def Let_def
    using t t2 n v by (auto simp del: notify_message_listeners_simps on_handshake_simps)
qed

lemma handle_raw_message_str:
  assumes "single_armed w" "handles_ok w"
  shows "rearmed cfg w (handle_raw_message cfg loads (StrMessage s) w) \<and>
         handles_ok (handle_raw_message cfg loads (StrMessage s) w) \<and>
         sends (fst (handle_raw_message cfg loads (StrMessage s) w)) = sends (fst w)"
proof -
  let ?w1 = "reset_idle_timer cfg w"
  have r: "rearmed cfg w ?w1" using assms(1) by (rule rearmed_reset_idle_timer)
  have v: "handles_ok ?w1" using assms(2) by (rule V_reset_idle_timer)
  have s1: "sends (fst ?w1) = sends (fst w)" by simp
  have d: "rearmed cfg w (dispatch kv ?w1) \<and> handles_ok (dispatch kv ?w1) \<and>
           sends (fst (dispatch kv ?w1)) = sends (fst w)" for kv
    using dispatch_keeps [OF v, of kv] r s1 rearmed_keepsW [of cfg w ?w1 "dispatch kv ?w1"]
      keepsW_sends [of ?w1 "dispatch kv ?w1"]
    by simp
  show ?thesis
    using r v s1 d
    by (simp add: handle_raw_message_def Let_def split: option.splits json.splits)
qed

lemma connect_cases:
  assumes j: "single_armed w"
  shows "(quiet w (snd (connect cfg d k w)) \<or>
          (rearmed cfg w (snd (connect cfg d k w)) \<and>
           sends (fst (snd (connect cfg d k w))) = Suc (sends (fst w)))) \<and>
         (handles_ok w \<longrightarrow> handles_ok (snd (connect cfg d k w)))"
proof (cases "ws (snd w) \<noteq> None")
  case True
  then show ?thesis by (simp add: connect_def)
next
  case False
  define w1 where "w1 = on_handshake reset w"
  have q1: "quiet w w1" unfolding w1_def by (rule quiet_on_handshake_reset)
  have v1: "handles_ok w1" unfolding w1_def by (rule V_on_handshake_reset)
  show ?thesis
  proof (cases d)
    case (Raised e)
    have "quiet w (snd (disconnect None False e w1))"
      using q1 quiet_disconnect [of w1 None False e] by (rule quiet_trans)
    with False Raised show ?thesis
      by (simp add: connect_def Let_def w1_def V_disconnect)
  next
    case (Returned c)
    define w2 where "w2 = (snd (create_task ListenLoop (clock (fst w1)) (fst w1)),
        (snd w1)\<lparr>ws := Some c, receive_task := Some (fst (create_task ListenLoop (clock (fst w1)) (fst w1)))\<rparr>)"
    have k2: "keepsW w1 w2"
      by (simp add: w2_def keepsW_def keeps_create)
    have q2: "quiet w w2" using q1 keepsW_quiet [OF k2] by (rule quiet_trans)
    have v2: "handles_ok w2"
      using v1 by (rule V_ext) (simp_all add: w2_def ext_create)
    have ws2: "ws (snd w2) = Some c" by (simp add: w2_def)
    have fail: "quiet w (snd (disconnect None False e w2))" for e
      using q2 quiet_disconnect [of w2 None False e] by (rule quiet_trans)
    have c: "snd (connect cfg d k w) =
        (case k of
           Raised e \<Rightarrow> snd (disconnect None False e w2)
         | Returned api_key \<Rightarrow>
             if api_key = [] then
               snd (disconnect None False (code_points ''No API Key available for authentication.'') w2)
             else on_handshake (transition_to AUTHENTICATING)
                    (send_json cfg (build_hello api_key (code_points ''api_key'') (incognito cfg)) w2))"
      using False Returned
      by (simp add: connect_def Let_def w1_def w2_def split: outcome.splits)
    show ?thesis
    proof (cases k)
      case (Raised e)
      with c fail show ?thesis by (simp add: V_disconnect)
    next
      case (Returned api_key)
      show ?thesis
      proof (cases "api_key = []")
        case True
        with c Returned fail show ?thesis by (simp add: V_disconnect)
      next
        case ne: False
        let ?p = "build_hello api_key (code_points ''api_key'') (incognito cfg)"
        let ?w3 = "send_json cfg ?p w2"
        let ?w4 = "on_handshake (transition_to AUTHENTICATING) ?w3"
        have j2: "single_armed w2" using j q2 by (rule J'_quiet)
        from send_json_cases [OF j2, of cfg ?p] ws2
        have r3: "rearmed cfg w2 ?w3" and s3: "sends (fst ?w3) = Suc (sends (fst w2))"
          by auto
        have v3: "handles_ok ?w3" using v2 by (rule V_send_json)
        have k4: "keepsW ?w3 ?w4" using v3 by (rule keepsW_on_handshake_transition)
        have v4: "handles_ok ?w4" using v3 by (rule V_on_handshake_transition)
        have "rearmed cfg w2 ?w4" using r3 k4 by (rule rearmed_keepsW)
        with q2 have r: "rearmed cfg w ?w4" by (rule rearmed_after_quiet)
        have "sends (fst ?w4) = Suc (sends (fst w))"
          using keepsW_sends [OF k4] s3 quiet_sends [OF q2] by simp
        with r v4 c Returned ne show ?thesis by simp
      qed
    qed
  qed
qed

lemma quiet_timeout_coro: "quiet w (timeout_coro w)"
  by (simp add: timeout_coro_def quiet_on_handshake_transition)

lemma V_timeout_coro: "handles_ok w \<Longrightarrow> handles_ok (timeout_coro w)"
  by (simp add: timeout_coro_def V_on_handshake_transition)

lemma quiet_idle_timeout_coro: "quiet w (idle_timeout_coro me sus w)"
  by (simp add: idle_timeout_coro_def quiet_disconnect)

lemma V_idle_timeout_coro: "handles_ok w \<Longrightarrow> handles_ok (idle_timeout_coro me sus w)"
  by (simp add: idle_timeout_coro_def V_disconnect)

lemma quiet_begin: "quiet w (begin_task i (fst w), snd w)"
  by (simp add: quiet_def ext_begin)

lemma quiet_end: "quiet w (end_task i (fst w), snd w)"
  by (simp add: quiet_def ext_end)

lemma V_begin: "handles_ok w \<Longrightarrow> handles_ok (begin_task i (fst w), snd w)"
  by (rule V_ext) (simp_all add: ext_begin)

lemma V_end: "handles_ok w \<Longrightarrow> handles_ok (end_task i (fst w), snd w)"
  by (rule V_ext) (simp_all add: ext_end)

lemma quiet_run_task: "quiet w (run_task i sus w)"
proof -
  let ?w1 = "(begin_task i (fst w), snd w)"
  have q1: "quiet w ?w1" by (rule quiet_begin)
  have fin: "quiet w (end_task i (fst w2), snd w2)" if "quiet ?w1 w2" for w2
    using q1 that quiet_end [of w2 i] by (blast intro: quiet_trans)
  have a: "quiet w (end_task i (fst (timeout_coro ?w1)), snd (timeout_coro ?w1))"
    by (rule fin) (rule quiet_timeout_coro)
  have b: "quiet w (end_task i (fst (idle_timeout_coro i sus ?w1)), snd (idle_timeout_coro i sus ?w1))"
    by (rule fin) (rule quiet_idle_timeout_coro)
  have c: "quiet w (end_task i (emit (Notified l s) (begin_task i (fst w))), snd w)" for l s
    using fin [of "(emit (Notified l s) (fst ?w1), snd ?w1)"] by (simp add: quiet_def ext_emit)
  show ?thesis
    using a b c by (simp add: run_task_def Let_def split: coroutine.splits)
qed

lemma V_run_task: "handles_ok w \<Longrightarrow> handles_ok (run_task i sus w)"
proof -
  assume v: "handles_ok w"
  let ?w1 = "(begin_task i (fst w), snd w)"
  have v1: "handles_ok ?w1" using v by (rule V_begin)
  have a: "handles_ok (end_task i (fst (timeout_coro ?w1)), snd (timeout_coro ?w1))"
    using v1 by (intro V_end V_timeout_coro)
  have b: "handles_ok (end_task i (fst (idle_timeout_coro i sus ?w1)), snd (idle_timeout_coro i sus ?w1))"
    using v1 by (intro V_end V_idle_timeout_coro)
  have c: "handles_ok (end_task i (emit (Notified l s) (begin_task i (fst w))), snd w)" for l s
    using V_end [OF V_emit [OF v1, of "Notified l s"], of i] by simp
  show ?thesis
    using v a b c by (simp add: run_task_def Let_def split: coroutine.splits)
qed

lemma quiet_listen_loop_failed: "quiet w (listen_loop_failed i sus r w)"
proof -
  let ?w1 = "(begin_task i (fst w), snd w)"
  let ?w2 = "snd (disconnect (Some i) sus r ?w1)"
  have "quiet w ?w2"
    using quiet_begin quiet_disconnect by (rule quiet_trans)
  then have "quiet w (end_task i (fst ?w2), snd ?w2)"
    using quiet_end [of ?w2 i] by (blast intro: quiet_trans)
  then show ?thesis by (simp add: listen_loop_failed_def Let_def)
qed

lemma V_listen_loop_failed: "handles_ok w \<Longrightarrow> handles_ok (listen_loop_failed i sus r w)"
  by (simp add: listen_loop_failed_def Let_def V_end V_disconnect)


lemma step_dichotomy:
  assumes j: "single_armed w" and v: "handles_ok w"
  shows "((\<not> activity cfg loads ev w \<and>
            (quiet w (step cfg loads ev w) \<or>
             (\<exists>d. ev = Advance d \<and> step cfg loads ev w = ((fst w)\<lparr>clock := clock (fst w) + d\<rparr>, snd w)))) \<or>
          (activity cfg loads ev w \<and> rearmed cfg w (step cfg loads ev w))) \<and>
         handles_ok (step cfg loads ev w)"
proof (cases ev)
  case (SendAudio c)
  with send_audio_cases [OF j, of cfg c] V_send_audio [OF v, of cfg c] show ?thesis
    by (auto simp: step_def activity_def)
next
  case (SendJson d)
  with send_json_cases [OF j, of cfg d] V_send_json [OF v, of cfg d] show ?thesis
    by (auto simp: step_def activity_def)
next
  case (Receive i m)
  show ?thesis
  proof (cases m)
    case (StrMessage s)
    with Receive handle_raw_message_str [OF j v, of cfg loads s] v show ?thesis
      by (simp add: step_def activity_def listen_loop_message_def)
  next
    case (BytesMessage b)
    with Receive v show ?thesis
      by (simp add: step_def activity_def listen_loop_message_def handle_raw_message_def)
  qed
next
  case (ListenFailed i sus r)
  with quiet_listen_loop_failed [of w i sus r]
    quiet_sends [of w "listen_loop_failed i sus r w"] V_listen_loop_failed [OF v, of i sus r]
  show ?thesis
    by (simp add: step_def activity_def)
next
  case (Connect d k)
  with connect_cases [OF j, of cfg d k] v quiet_sends [of w "snd (connect cfg d k w)"]
  show ?thesis
    by (auto simp: step_def activity_def)
next
  case (EnsureConnected d k)
  with connect_cases [OF j, of cfg d k] v quiet_sends [of w "snd (connect cfg d k w)"]
  show ?thesis
    by (auto simp: step_def activity_def ensure_connected_def)
next
  case (Disconnect r)
  with quiet_disconnect [of w None False r] quiet_sends [of w "snd (disconnect None False r w)"]
  show ?thesis
    by (simp add: step_def activity_def V_disconnect)
next
  case (AddMessageListener cb)
  with v show ?thesis
    by (simp add: step_def activity_def quiet_def add_message_listener_def handles_ok_def)
next
  case (AddHandshakeListener cb)
  with v show ?thesis
    by (simp add: step_def activity_def quiet_def add_listener_def handles_ok_def timeout_handle_ok_def)
next
  case (Advance d)
  with v show ?thesis
    by (simp add: step_def activity_def sends_def handles_ok_def timeout_handle_ok_def)
next
  case (RunTask i sus)
  with quiet_run_task [of w i sus] quiet_sends [of w "run_task i sus w"] V_run_task [OF v, of i sus]
  show ?thesis
    by (simp add: step_def activity_def)
qed

definition run_inv :: "config \<Rightarrow> world \<times> nat option \<Rightarrow> bool" where
  "run_inv cfg s = (deadline_inv cfg s \<and> handles_ok (fst s))"

lemma J_advance: "deadline_inv cfg (w, la) \<Longrightarrow> deadline_inv cfg (((fst w)\<lparr>clock := clock (fst w) + d\<rparr>, snd w), la)"
  by (fastforce simp: deadline_inv_def armed_def)

lemma Inv_step:
  assumes "run_inv cfg s"
  shows "run_inv cfg (step cfg loads ev (fst s),
                  if activity cfg loads ev (fst s) then Some (clock (fst (fst s))) else snd s)"
proof -
  obtain w la where s: "s = (w, la)" by (cases s)
  from assms s have j: "deadline_inv cfg (w, la)" and v: "handles_ok w" by (simp_all add: run_inv_def)
  from j have j': "single_armed w" by (rule J_J')
  note d = step_dichotomy [OF j' v, of cfg loads ev]
  show ?thesis
  proof (cases "activity cfg loads ev w")
    case True
    with d have "rearmed cfg w (step cfg loads ev w)" by blast
    then have "deadline_inv cfg (step cfg loads ev w, Some (clock (fst w)))" by (rule rearmed_J)
    with True d s show ?thesis by (simp add: run_inv_def)
  next
    case False
    with d have "quiet w (step cfg loads ev w) \<or>
      (\<exists>d. step cfg loads ev w = ((fst w)\<lparr>clock := clock (fst w) + d\<rparr>, snd w))" by blast
    then have "deadline_inv cfg (step cfg loads ev w, la)"
    proof
      assume "quiet w (step cfg loads ev w)"
      with j show ?thesis by (rule J_quiet)
    next
      assume "\<exists>d. step cfg loads ev w = ((fst w)\<lparr>clock := clock (fst w) + d\<rparr>, snd w)"
      then obtain d where "step cfg loads ev w = ((fst w)\<lparr>clock := clock (fst w) + d\<rparr>, snd w)"
        by blast
      with J_advance [OF j, of d] show ?thesis by simp
    qed
    with False d s show ?thesis by (simp add: run_inv_def)
  qed
qed

lemma Inv_run: "run_inv cfg s \<Longrightarrow> run_inv cfg (run cfg loads es s)"
  by (induction es arbitrary: s) (simp_all add: Inv_step)

lemma Inv_started: "started w \<Longrightarrow> run_inv cfg (w, None)"
  by (simp add: started_def run_inv_def deadline_inv_def armed_def handles_ok_def timeout_handle_ok_def)

text \<open>What the idle timer does when it fires with a socket present.\<close>

lemma nth_cancel_other: "h \<noteq> i \<Longrightarrow> tasks (cancel_task h rt) ! i = tasks rt ! i"
  by (simp add: cancel_task_def set_status_def split: task_status.splits)

lemma nth_notify:
  "i < length (tasks rt) \<Longrightarrow>
   i < length (tasks (notify_listeners s ls rt)) \<and> tasks (notify_listeners s ls rt) ! i = tasks rt ! i"
  by (induction s ls rt rule: notify_listeners.induct) (simp_all add: nth_append emit_def)

lemma nth_cancel_timeout:
  "i < length (tasks (fst (cancel_timeout w))) \<and> tasks (fst (cancel_timeout w)) ! i = tasks (fst w) ! i"
  if "timeout_handle_ok w" "i < length (tasks (fst w))" "coro (tasks (fst w) ! i) \<noteq> HandshakeTimeout"
proof (cases "timeout_task (snd w)")
  case None
  then show ?thesis using that by (simp add: cancel_timeout_def)
next
  case (Some h)
  with that have "h \<noteq> i" by (auto simp: timeout_handle_ok_def)
  with Some that show ?thesis by (simp add: cancel_timeout_def nth_cancel_other)
qed

lemma nth_reset:
  assumes "timeout_handle_ok w" "i < length (tasks (fst w))" "coro (tasks (fst w) ! i) \<noteq> HandshakeTimeout"
  shows "i < length (tasks (fst (reset w))) \<and> tasks (fst (reset w)) ! i = tasks (fst w) ! i"
proof -
  let ?w1 = "cancel_timeout w"
  have 1: "i < length (tasks (fst ?w1))" "tasks (fst ?w1) ! i = tasks (fst w) ! i"
    using nth_cancel_timeout [OF assms] by simp_all
  have t: "timeout_task (snd ?w1) = None" by (simp add: cancel_timeout_def split: option.splits)
  let ?rt = "notify_listeners LOCKED (listeners (snd ?w1)) (fst ?w1)"
  have 2: "i < length (tasks ?rt)" "tasks ?rt ! i = tasks (fst ?w1) ! i"
    using nth_notify [OF 1(1)] by simp_all
  have 3: "fst (cancel_timeout (?rt, (snd ?w1)\<lparr>state := LOCKED\<rparr>)) = ?rt"
    using t by (simp add: cancel_timeout_def)
  show ?thesis
    using 1 2 3 by (auto simp: reset_def transition_to_def Let_def simp del: is_valid_transition.simps)
qed

lemma cancel_keeps_cancelling:
  "i < length (tasks rt) \<Longrightarrow> status (tasks rt ! i) = Cancelling \<Longrightarrow>
   status (tasks (cancel_task r rt) ! i) = Cancelling"
  by (cases "r = i") (simp_all add: nth_cancel_other, simp add: cancel_task_def)

lemma idle_timer_fires:
  assumes v: "handles_ok w" and ar: "armed (fst w) i" and h: "idle_timer (snd w) = Some i"
    and c: "ws (snd w) = Some c"
  shows "fst (disconnect (Some i) sus r (begin_task i (fst w), snd w)) = (if sus then CancelledError else Completed)"
    and "ws (snd (snd (disconnect (Some i) sus r (begin_task i (fst w), snd w)))) = (if sus then Some c else None)"
    and "idle_timer (snd (snd (disconnect (Some i) sus r (begin_task i (fst w), snd w)))) = None"
    and "last (trace (fst (snd (disconnect (Some i) sus r (begin_task i (fst w), snd w))))) = WsClose 1000 r"
    and "i < length (tasks (fst (snd (disconnect (Some i) sus r (begin_task i (fst w), snd w)))))"
    and "status (tasks (fst (snd (disconnect (Some i) sus r (begin_task i (fst w), snd w)))) ! i) = Cancelling"
proof -
  define w0 where "w0 = (begin_task i (fst w), snd w)"
  define w1 where "w1 = on_handshake reset w0"
  define w2 where "w2 = (case idle_timer (snd w1) of
                  Some i \<Rightarrow> (cancel_task i (fst w1), (snd w1)\<lparr>idle_timer := None\<rparr>)
                | None \<Rightarrow> w1)"
  define w3 where "w3 = (case receive_task (snd w2) of
                  Some i \<Rightarrow> (cancel_task i (fst w2), (snd w2)\<lparr>receive_task := None\<rparr>)
                | None \<Rightarrow> w2)"
  define rt4 where "rt4 = emit (WsClose 1000 r) (fst w3)"
  define res where "res = (case ws (snd w3) of
            Some c \<Rightarrow>
              (let rt4 = emit (WsClose 1000 r) (fst w3) in
               if sus \<and> cancel_pending (Some i) rt4 then (CancelledError, (rt4, snd w3))
               else (Completed, (rt4, (snd w3)\<lparr>ws := None\<rparr>)))
          | None \<Rightarrow> (Completed, w3))"
  have d0: "disconnect (Some i) sus r (begin_task i (fst w), snd w) = res"
    unfolding disconnect_def Let_def res_def w3_def w2_def w1_def w0_def by (rule refl)
  from ar have il: "i < length (tasks (fst w))" and co: "coro (tasks (fst w) ! i) = IdleTimeout"
    by (simp_all add: armed_def)
  have v0: "timeout_handle_ok (fst w0, handshake (snd w0))"
    using V_begin [OF v, of i] by (simp add: w0_def handles_ok_def)
  have t0: "i < length (tasks (fst w0))" "tasks (fst w0) ! i = (tasks (fst w) ! i)\<lparr>status := Running\<rparr>"
    using il by (simp_all add: w0_def begin_task_def set_status_nth)
  have t1: "i < length (tasks (fst w1))" "tasks (fst w1) ! i = (tasks (fst w) ! i)\<lparr>status := Running\<rparr>"
    using nth_reset [OF v0, of i] t0 co by (simp_all add: w1_def on_handshake_def Let_def)
  have s1: "idle_timer (snd w1) = Some i" "ws (snd w1) = Some c" "receive_task (snd w1) = receive_task (snd w)"
    using h c by (simp_all add: w1_def w0_def on_handshake_def Let_def)
  have w2: "w2 = (cancel_task i (fst w1), (snd w1)\<lparr>idle_timer := None\<rparr>)"
    using s1 by (simp add: w2_def)
  have t2: "i < length (tasks (fst w2))" "status (tasks (fst w2) ! i) = Cancelling"
    using t1 by (simp_all add: w2 cancel_task_def set_status_nth)
  have t3: "i < length (tasks (fst w3))" "status (tasks (fst w3) ! i) = Cancelling"
    using t2 by (simp_all add: w3_def cancel_keeps_cancelling split: option.splits)
  have s3: "ws (snd w3) = Some c" "idle_timer (snd w3) = None"
    using s1 by (simp_all add: w3_def w2 split: option.splits)
  have p: "cancel_pending (Some i) rt4"
    using t3 by (simp add: cancel_pending_def rt4_def emit_def)
  have d: "disconnect (Some i) sus r (begin_task i (fst w), snd w) =
      (if sus then (CancelledError, (rt4, snd w3)) else (Completed, (rt4, (snd w3)\<lparr>ws := None\<rparr>)))"
    using s3 p by (simp add: d0 res_def rt4_def Let_def)
  show "fst (disconnect (Some i) sus r (begin_task i (fst w), snd w)) = (if sus then CancelledError else Completed)"
    by (simp add: d)
  show "ws (snd (snd (disconnect (Some i) sus r (begin_task i (fst w), snd w)))) = (if sus then Some c else None)"
    by (simp add: d s3)
  show "idle_timer (snd (snd (disconnect (Some i) sus r (begin_task i (fst w), snd w)))) = None"
    by (simp add: d s3)
  show "last (trace (fst (snd (disconnect (Some i) sus r (begin_task i (fst w), snd w))))) = WsClose 1000 r"
    by (simp add: d rt4_def emit_def)
  show "i < length (tasks (fst (snd (disconnect (Some i) sus r (begin_task i (fst w), snd w)))))"
    using t3 by (simp add: d rt4_def emit_def)
  show "status (tasks (fst (snd (disconnect (Some i) sus r (begin_task i (fst w), snd w)))) ! i) = Cancelling"
    using t3 by (simp add: d rt4_def emit_def)
qed



lemma started_world_init: "started world_init"
  by (simp add: started_def world_init_def runtime_init_def transport_init_def handshake_init_def)



lemma example_run:
  "snd (run cfg0 loads_example example_session (world_init, None)) = Some 10 \<and>
   idle_timer (snd (fst (run cfg0 loads_example example_session (world_init, None)))) = Some 3 \<and>
   clock (fst (fst (run cfg0 loads_example example_session (world_init, None)))) = 310 \<and>
   ws (snd (fst (run cfg0 loads_example example_session (world_init, None)))) = Some 7 \<and>
   tasks (fst (fst (run cfg0 loads_example example_session (world_init, None)))) ! 3
     = \<lparr>coro = IdleTimeout, wake_at = 310, status = Sleeping\<rparr>"
  by code_simp

lemma example_armed:
  "armed (fst (fst (run cfg0 loads_example example_session (world_init, None)))) 3"
  by code_simp


end
